theory Spec2Isabelle
  imports Main "HOL-Library.AList"
begin

section \<open>The plugin manager of the low-code engine\<close>

text \<open>
  A shallow embedding of \<^verbatim>\<open>packages/designer/src/plugin/plugin-manager.ts\<close>
  (class \<^verbatim>\<open>LowCodePluginManager\<close>). The manager keeps an array \<^verbatim>\<open>plugins\<close> and a
  \<^verbatim>\<open>Map\<close> \<^verbatim>\<open>pluginsMap\<close> that hold references to the same plugin objects, so the
  objects live in an explicit store and both containers hold addresses. The map
  \<^verbatim>\<open>pluginsMap\<close> is an association list with one entry per key (\<open>AList.update\<close> is
  its \<^verbatim>\<open>set\<close>, \<open>AList.delete\<close> its \<^verbatim>\<open>delete\<close>, \<open>map_of\<close> its \<^verbatim>\<open>get\<close>, the length its
  \<^verbatim>\<open>size\<close>); the map of the preferences is only read by key, and is a function. Every
  \<^verbatim>\<open>throw\<close> and every rejected promise is an \<open>Inl\<close> result; the state reached at the
  moment of the throw is returned with it, since the mutations made before a throw
  stay. An awaited hook is modelled as running to its end at the call.
\<close>

subsection \<open>Data\<close>

type_synonym ref = nat

text \<open>What a lifecycle hook of a plugin config does when it is invoked.\<close>

datatype hook = Succeeds | Throws

record engines =
  lowcodeEngine :: "string option"

record config_meta =
  meta_preferenceDeclaration :: "string list option"
  meta_engines :: "engines option"
  meta_dependencies :: "string list"

record plugin_config =
  config_name :: "string option"
  config_init :: "hook option"
  config_destroy :: "hook option"

text \<open>
  The argument \<^verbatim>\<open>pluginConfigCreator\<close> of \<^verbatim>\<open>register\<close>: a function object with
  the optional properties \<^verbatim>\<open>pluginName\<close> and \<^verbatim>\<open>meta\<close>; \<open>creator_config\<close> is the
  config it returns when the manager invokes it. The context and the filtered options
  it is invoked with go to the factory only, and nothing the manager keeps depends on
  them.
\<close>

record creator =
  creator_pluginName :: "string option"
  creator_meta :: "config_meta option"
  creator_config :: plugin_config

text \<open>\<^verbatim>\<open>ILowCodeRegisterOptions\<close>; \<open>None\<close> is a key that is not there.\<close>

record register_options =
  autoInit :: "bool option"
  override :: "bool option"

text \<open>
  Modelled from the spec: the plugin unit (class \<^verbatim>\<open>LowCodePlugin\<close> of \<^verbatim>\<open>./plugin\<close>,
  which is not among the sources). Section 3 of the specification gives it a name, the
  config, the meta data with the dependency list, and the flags \<open>disabled\<close> and
  \<open>initialized\<close>; section 4.4 adds the terminal state \<open>destroyed\<close>.
\<close>

record plugin =
  plugin_name :: string
  plugin_cfg :: plugin_config
  plugin_meta :: config_meta
  disabled :: bool
  initialized :: bool
  destroyed :: bool

datatype preference_value = PString string | PNumber int | PBool bool

type_synonym preference = "string \<rightharpoonup> preference_value"

datatype error =
    ConfigurationError
  | DuplicatePluginError string
  | IncompatibleVersionError string
  | MissingDependencyError "string list"
  | HookExecutionError
  | TypeError

text \<open>What the outside observes: calls of the logger, of a unit's methods and of its hooks.\<close>

datatype event =
    FactoryInvoked
  | SetPreference string "string list option"
  | LogOverride string ref
  | LogRegistered string
  | LogSequence "string list"
  | LogInitFailed string error
  | LogDisabled string bool
  | InitCalled ref
  | InitHookRun ref
  | DestroyCalled ref
  | DestroyHookRun ref

record manager =
  plugins :: "ref list"
  pluginsMap :: "(string \<times> ref) list"
  pluginPreference :: "(string \<rightharpoonup> preference) option"
  heap :: "ref \<rightharpoonup> plugin"
  next_ref :: ref
  trace :: "event list"

text \<open>The field initialisers of the class: an empty array and two empty maps.\<close>

definition new_manager :: manager where
  "new_manager =
     \<lparr>plugins = [], pluginsMap = [], pluginPreference = Some Map.empty,
      heap = Map.empty, next_ref = 0, trace = []\<rparr>"

text \<open>
  The collaborators of other packages: the engine's configuration store with its
  reserved key \<^verbatim>\<open>ENGINE_VERSION\<close>, and the range matching of the \<^verbatim>\<open>semver\<close> library
  (called with \<^verbatim>\<open>includePrerelease\<close>), first argument the version, second the range.
\<close>

record env =
  ENGINE_VERSION :: string
  semverSatisfies :: "string \<Rightarrow> string \<Rightarrow> bool"

definition log_event :: "event \<Rightarrow> manager \<Rightarrow> manager" where
  "log_event e s = s\<lparr>trace := trace s @ [e]\<rparr>"

subsection \<open>The plugin unit\<close>

text \<open>
  Modelled from the spec: \<^verbatim>\<open>LowCodePlugin.init\<close> (section 4.2). It invokes the config's
  \<^verbatim>\<open>init\<close> hook at most once, a call after the first successful completion is a no-op,
  and a failure of the hook propagates to the caller; \<open>initialized\<close> is set after the
  hook has resolved.
\<close>

definition unit_init :: "ref \<Rightarrow> manager \<Rightarrow> (error + unit) \<times> manager" where
  "unit_init r s =
     (let s1 = log_event (InitCalled r) s in
      case heap s r of
        None \<Rightarrow> (Inl TypeError, s1)
      | Some p \<Rightarrow>
          if initialized p then (Inr (), s1)
          else
            (case config_init (plugin_cfg p) of
               None \<Rightarrow> (Inr (), s1\<lparr>heap := (heap s1)(r \<mapsto> p\<lparr>initialized := True\<rparr>)\<rparr>)
             | Some h \<Rightarrow>
                 let s2 = log_event (InitHookRun r) s1 in
                 (case h of
                    Throws \<Rightarrow> (Inl HookExecutionError, s2)
                  | Succeeds \<Rightarrow>
                      (Inr (), s2\<lparr>heap := (heap s2)(r \<mapsto> p\<lparr>initialized := True\<rparr>)\<rparr>))))"

text \<open>
  Modelled from the spec: \<^verbatim>\<open>LowCodePlugin.destroy\<close> (sections 4.2 and 7). It invokes the
  config's \<^verbatim>\<open>destroy\<close> hook if there is one, whether or not \<^verbatim>\<open>init\<close> ever ran; on a
  unit that is destroyed already it is a no-op. A hook that throws is a
  \<open>HookExecutionError\<close> of the call; the unit is marked \<open>destroyed\<close> once the hook has
  resolved.
\<close>

definition unit_destroy :: "ref \<Rightarrow> manager \<Rightarrow> (error + unit) \<times> manager" where
  "unit_destroy r s =
     (let s1 = log_event (DestroyCalled r) s in
      case heap s r of
        None \<Rightarrow> (Inl TypeError, s1)
      | Some p \<Rightarrow>
          if destroyed p then (Inr (), s1)
          else
            (case config_destroy (plugin_cfg p) of
               None \<Rightarrow> (Inr (), s1\<lparr>heap := (heap s1)(r \<mapsto> p\<lparr>destroyed := True\<rparr>)\<rparr>)
             | Some h \<Rightarrow>
                 let s2 = log_event (DestroyHookRun r) s1 in
                 (case h of
                    Throws \<Rightarrow> (Inl HookExecutionError, s2)
                  | Succeeds \<Rightarrow>
                      (Inr (), s2\<lparr>heap := (heap s2)(r \<mapsto> p\<lparr>destroyed := True\<rparr>)\<rparr>))))"

text \<open>
  Modelled from the spec: \<^verbatim>\<open>LowCodePlugin.setDisabled\<close> (section 4.2) toggles the flag
  and leaves the rest of the unit as it is.
\<close>

definition unit_setDisabled :: "ref \<Rightarrow> bool \<Rightarrow> manager \<Rightarrow> manager" where
  "unit_setDisabled r flag s =
     (case heap s r of
        None \<Rightarrow> s
      | Some p \<Rightarrow> s\<lparr>heap := (heap s)(r \<mapsto> p\<lparr>disabled := flag\<rparr>)\<rparr>)"

text \<open>
  Modelled from the spec: the getters \<^verbatim>\<open>name\<close>, \<^verbatim>\<open>dep\<close> and \<^verbatim>\<open>disabled\<close> of
  \<^verbatim>\<open>LowCodePlugin\<close> (section 3: the name, the dependency list of the meta data, the
  flag). An address without an object does not occur in a state the manager builds
  (JavaScript has no dangling reference); the getters are made total with an empty
  answer there.
\<close>

definition unit_name :: "manager \<Rightarrow> ref \<Rightarrow> string" where
  "unit_name s r = (case heap s r of None \<Rightarrow> [] | Some p \<Rightarrow> plugin_name p)"

definition unit_dep :: "manager \<Rightarrow> ref \<Rightarrow> string list" where
  "unit_dep s r =
     (case heap s r of None \<Rightarrow> [] | Some p \<Rightarrow> meta_dependencies (plugin_meta p))"

definition unit_disabled :: "manager \<Rightarrow> ref \<Rightarrow> bool" where
  "unit_disabled s r = (case heap s r of None \<Rightarrow> False | Some p \<Rightarrow> disabled p)"

subsection \<open>The dependency sequencer\<close>

record seq_result =
  sequence :: "string list"
  missingTasks :: "string list"

type_synonym tasks = "(string \<times> string list) list"

type_synonym sequencer = "tasks \<Rightarrow> string list \<Rightarrow> seq_result"

text \<open>
  Modelled from the spec: \<^verbatim>\<open>sequencify\<close> of \<^verbatim>\<open>./sequencify\<close>, which is not among the
  sources (section 4.1). A depth-first traversal from each requested name: the
  dependencies of a unit are visited before the unit is emitted; \<open>visiting\<close> is the
  marker of the units whose visit is under way, and a name met again while it is
  marked is a cycle, reported as missing like a name that no unit has. A unit is
  emitted only when all its dependencies have been, so a unit that requests a missing
  or cyclic dependency is left out of the sequence. A name that is in the sequence
  already is skipped, which keeps the first-seen order.
\<close>

function visit :: "tasks \<Rightarrow> string list \<Rightarrow> string list \<Rightarrow> seq_result \<Rightarrow> seq_result" where
  "visit units visiting [] acc = acc"
| "visit units visiting (n # ns) acc =
     visit units visiting ns
       (if n \<in> set (sequence acc) then acc
        else if n \<in> set visiting then acc\<lparr>missingTasks := missingTasks acc @ [n]\<rparr>
        else
          (case map_of units n of
             None \<Rightarrow> acc\<lparr>missingTasks := missingTasks acc @ [n]\<rparr>
           | Some deps \<Rightarrow>
               let acc' = visit units (n # visiting) deps acc in
               if list_all (\<lambda>d. d \<in> set (sequence acc')) deps
               then acc'\<lparr>sequence := sequence acc' @ [n]\<rparr>
               else acc'))"
  by pat_completeness auto

termination
proof (relation "measures [\<lambda>(units, visiting, ns, acc). card (fst ` set units - set visiting),
                            \<lambda>(units, visiting, ns, acc). length ns]")
  show "wf (measures [\<lambda>(units, visiting, ns, acc). card (fst ` set units - set visiting),
                      \<lambda>(units, visiting, ns, acc). length ns])"
    by simp
next
  fix units :: tasks and visiting ns :: "string list" and n :: string
    and acc :: seq_result and deps :: "string list"
  assume nv: "n \<notin> set visiting" and look: "map_of units n = Some deps"
  have "n \<in> fst ` set units"
    using look by (metis domI dom_map_of_conv_image_fst)
  then have "fst ` set units - set (n # visiting) \<subset> fst ` set units - set visiting"
    using nv by auto
  then have "card (fst ` set units - set (n # visiting)) < card (fst ` set units - set visiting)"
    by (simp add: psubset_card_mono)
  then show "((units, n # visiting, deps, acc), (units, visiting, n # ns, acc))
      \<in> measures [\<lambda>(units, visiting, ns, acc). card (fst ` set units - set visiting),
                  \<lambda>(units, visiting, ns, acc). length ns]"
    by simp
next
  fix units :: tasks and visiting ns :: "string list" and n :: string
    and acc x :: seq_result
  show "((units, visiting, ns, x), (units, visiting, n # ns, acc))
      \<in> measures [\<lambda>(units, visiting, ns, acc). card (fst ` set units - set visiting),
                  \<lambda>(units, visiting, ns, acc). length ns]"
    by simp
qed

definition sequencify :: sequencer where
  "sequencify units names = visit units [] names \<lparr>sequence = [], missingTasks = []\<rparr>"

text \<open>What one turn of \<open>visit\<close> does to the result before it goes on with the other names.\<close>

definition visit_step :: "tasks \<Rightarrow> string list \<Rightarrow> string \<Rightarrow> seq_result \<Rightarrow> seq_result" where
  "visit_step units visiting n acc =
     (if n \<in> set (sequence acc) then acc
      else if n \<in> set visiting then acc\<lparr>missingTasks := missingTasks acc @ [n]\<rparr>
      else
        (case map_of units n of
           None \<Rightarrow> acc\<lparr>missingTasks := missingTasks acc @ [n]\<rparr>
         | Some deps \<Rightarrow>
             let acc' = visit units (n # visiting) deps acc in
             if list_all (\<lambda>d. d \<in> set (sequence acc')) deps
             then acc'\<lparr>sequence := sequence acc' @ [n]\<rparr>
             else acc'))"

text \<open>
  A sequence, latest name first, in which every name is there once and has a unit whose
  dependencies were all emitted before it.
\<close>

fun emitted_in_order :: "tasks \<Rightarrow> string list \<Rightarrow> bool" where
  "emitted_in_order units [] = True"
| "emitted_in_order units (n # earlier) =
     (n \<notin> set earlier
      \<and> (case map_of units n of
           None \<Rightarrow> False
         | Some deps \<Rightarrow> list_all (\<lambda>d. d \<in> set earlier) deps)
      \<and> emitted_in_order units earlier)"

subsection \<open>Helpers of the manager\<close>

text \<open>JavaScript truthiness of an optional string: \<^verbatim>\<open>undefined\<close> and \<^verbatim>\<open>''\<close> are falsy.\<close>

definition truthy :: "string option \<Rightarrow> bool" where
  "truthy x = (case x of None \<Rightarrow> False | Some v \<Rightarrow> v \<noteq> [])"

definition string_of :: "string option \<Rightarrow> string" where
  "string_of x = (case x of None \<Rightarrow> [] | Some v \<Rightarrow> v)"

text \<open>
  Modelled from the spec: \<^verbatim>\<open>isLowCodeRegisterOptions\<close> of \<^verbatim>\<open>./plugin-types\<close>, as the
  comment at its call in \<^verbatim>\<open>register\<close> describes it: an argument that has the key
  \<^verbatim>\<open>autoInit\<close> or the key \<^verbatim>\<open>override\<close> is the register options.
\<close>

definition isLowCodeRegisterOptions :: "register_options option \<Rightarrow> bool" where
  "isLowCodeRegisterOptions opts =
     (case opts of
        None \<Rightarrow> False
      | Some ro \<Rightarrow> \<not> (autoInit ro = None \<and> override ro = None))"

text \<open>
  Modelled from the spec: \<^verbatim>\<open>invariant\<close> of \<^verbatim>\<open>../utils\<close> throws when its check is
  falsy (sections 4.4 and 7: no derivable name fails the registration, a missing
  dependency aborts the init pass).
\<close>

definition invariant :: "bool \<Rightarrow> error \<Rightarrow> error + unit" where
  "invariant check err = (if check then Inr () else Inl err)"

definition isEngineVersionMatched :: "env \<Rightarrow> string \<Rightarrow> bool" where
  "isEngineVersionMatched E versionExp = semverSatisfies E (ENGINE_VERSION E) versionExp"

text \<open>
  Modelled from the spec: the constructor \<^verbatim>\<open>new LowCodePlugin(pluginName, this, config,
  meta)\<close> (section 3: a unit is created on \<^verbatim>\<open>register\<close>, \<open>disabled\<close> is false by default,
  \<open>initialized\<close> is set by \<^verbatim>\<open>init\<close>).
\<close>

definition new_plugin :: "string \<Rightarrow> plugin_config \<Rightarrow> config_meta \<Rightarrow> plugin" where
  "new_plugin pluginName config meta =
     \<lparr>plugin_name = pluginName, plugin_cfg = config, plugin_meta = meta,
      disabled = False, initialized = False, destroyed = False\<rparr>"

text \<open>The default \<^verbatim>\<open>meta = {}\<close> of the destructuring in \<^verbatim>\<open>register\<close>.\<close>

definition empty_meta :: config_meta where
  "empty_meta =
     \<lparr>meta_preferenceDeclaration = None, meta_engines = None, meta_dependencies = []\<rparr>"

fun findIndex :: "('a \<Rightarrow> bool) \<Rightarrow> 'a list \<Rightarrow> nat option" where
  "findIndex P [] = None"
| "findIndex P (x # xs) = (if P x then Some 0 else map_option Suc (findIndex P xs))"

text \<open>\<^verbatim>\<open>xs.splice(idx, 1)\<close>\<close>

definition splice1 :: "nat \<Rightarrow> 'a list \<Rightarrow> 'a list" where
  "splice1 idx xs = take idx xs @ drop (Suc idx) xs"

subsection \<open>The operations of the manager\<close>

text \<open>
  \<^verbatim>\<open>register\<close>. The steps are the source's, in its order: the register options may stand
  in the second place; the factory is invoked; the name is the factory's \<^verbatim>\<open>pluginName\<close>
  or else the config's \<^verbatim>\<open>name\<close>; on a name that is registered the call throws, or with
  \<^verbatim>\<open>override === true\<close> calls the old unit's \<^verbatim>\<open>destroy\<close> (not awaited, so its outcome is
  dropped) and deletes the name from \<^verbatim>\<open>pluginsMap\<close>; then the engine version gate; then
  the new unit, its \<^verbatim>\<open>init\<close> when \<^verbatim>\<open>autoInit\<close> is set, and the push and the set.
\<close>

text \<open>\<^verbatim>\<open>registerOptions\<close> after the first statement of \<^verbatim>\<open>register\<close>.\<close>

definition effective_options ::
  "register_options option \<Rightarrow> register_options option \<Rightarrow> register_options option" where
  "effective_options options registerOptions =
     (if isLowCodeRegisterOptions options then options else registerOptions)"

text \<open>\<^verbatim>\<open>pluginName || config.name\<close>, the config being the one the factory returns.\<close>

definition derive_pluginName :: "creator \<Rightarrow> string option" where
  "derive_pluginName pluginConfigCreator =
     (if truthy (creator_pluginName pluginConfigCreator)
      then creator_pluginName pluginConfigCreator
      else config_name (creator_config pluginConfigCreator))"

text \<open>\<^verbatim>\<open>registerOptions?.override === true\<close> and \<^verbatim>\<open>registerOptions?.autoInit\<close>.\<close>

definition allowOverride :: "register_options option \<Rightarrow> bool" where
  "allowOverride registerOptions =
     (case registerOptions of None \<Rightarrow> False | Some ro \<Rightarrow> override ro = Some True)"

definition wantsAutoInit :: "register_options option \<Rightarrow> bool" where
  "wantsAutoInit registerOptions =
     (case registerOptions of None \<Rightarrow> False | Some ro \<Rightarrow> autoInit ro = Some True)"

text \<open>\<^verbatim>\<open>meta\<close> with its default, and \<^verbatim>\<open>engines && engines.lowcodeEngine\<close>.\<close>

definition meta_of :: "creator \<Rightarrow> config_meta" where
  "meta_of pluginConfigCreator =
     (case creator_meta pluginConfigCreator of None \<Rightarrow> empty_meta | Some m \<Rightarrow> m)"

definition engineVersionExp :: "config_meta \<Rightarrow> string option" where
  "engineVersionExp meta =
     (case meta_engines meta of None \<Rightarrow> None | Some e \<Rightarrow> lowcodeEngine e)"

text \<open>The condition under which the engine version gate of \<^verbatim>\<open>register\<close> throws.\<close>

definition engine_check_fails :: "env \<Rightarrow> config_meta \<Rightarrow> bool" where
  "engine_check_fails E meta =
     (truthy (engineVersionExp meta)
      \<and> \<not> isEngineVersionMatched E (string_of (engineVersionExp meta)))"

text \<open>
  The branch \<^verbatim>\<open>clear existing plugin\<close> of \<^verbatim>\<open>register\<close>: the old unit's \<^verbatim>\<open>destroy\<close> is
  called and not awaited, so what it returns is dropped, and the name is deleted from
  \<^verbatim>\<open>pluginsMap\<close>. The array \<^verbatim>\<open>plugins\<close> is not touched.
\<close>

definition clear_existing :: "string \<Rightarrow> manager \<Rightarrow> manager" where
  "clear_existing name s =
     (case map_of (pluginsMap s) name of
        None \<Rightarrow> s
      | Some originalPlugin \<Rightarrow>
          let s' = snd (unit_destroy originalPlugin
                     (log_event (LogOverride name originalPlugin) s))
          in s'\<lparr>pluginsMap := AList.delete name (pluginsMap s')\<rparr>)"

text \<open>
  The end of \<^verbatim>\<open>register\<close>: the new unit is created, initialised at once when
  \<^verbatim>\<open>autoInit\<close> is set (a failure of that \<^verbatim>\<open>init\<close> leaves the function), pushed on
  \<^verbatim>\<open>plugins\<close> and set in \<^verbatim>\<open>pluginsMap\<close>.
\<close>

definition install ::
  "string \<Rightarrow> plugin_config \<Rightarrow> config_meta \<Rightarrow> register_options option \<Rightarrow> manager
     \<Rightarrow> (error + unit) \<times> manager" where
  "install name config meta registerOptions s3 =
     (let plugin = next_ref s3;
          s4 = s3\<lparr>heap := (heap s3)(plugin \<mapsto> new_plugin name config meta),
                  next_ref := Suc plugin\<rparr>
      in
        case (if wantsAutoInit registerOptions
              then unit_init plugin s4 else (Inr (), s4)) of
          (Inl e, s5) \<Rightarrow> (Inl e, s5)
        | (Inr _, s5) \<Rightarrow>
            (Inr (),
             log_event (LogRegistered name)
               (s5\<lparr>plugins := plugins s5 @ [plugin],
                   pluginsMap := AList.update name plugin (pluginsMap s5)\<rparr>)))"

definition register ::
  "env \<Rightarrow> manager \<Rightarrow> creator \<Rightarrow> register_options option \<Rightarrow> register_options option
     \<Rightarrow> (error + unit) \<times> manager" where
  "register E s pluginConfigCreator options registerOptions0 =
     (let registerOptions = effective_options options registerOptions0;
          meta = meta_of pluginConfigCreator;
          config = creator_config pluginConfigCreator;
          s1 = log_event FactoryInvoked s;
          pluginName = derive_pluginName pluginConfigCreator
      in
        case invariant (truthy pluginName) ConfigurationError of
          Inl e \<Rightarrow> (Inl e, s1)
        | Inr _ \<Rightarrow>
            let name = string_of pluginName;
                s2 = log_event (SetPreference name (meta_preferenceDeclaration meta)) s1
            in
              if map_of (pluginsMap s2) name \<noteq> None \<and> \<not> allowOverride registerOptions
              then (Inl (DuplicatePluginError name), s2)
              else
                let s3 = clear_existing name s2 in
                if engine_check_fails E meta
                then (Inl (IncompatibleVersionError name), s3)
                else install name config meta registerOptions s3)"

definition get :: "manager \<Rightarrow> string \<Rightarrow> ref option" where
  "get s pluginName = map_of (pluginsMap s) pluginName"

definition getAll :: "manager \<Rightarrow> ref list" where
  "getAll s = plugins s"

definition has :: "manager \<Rightarrow> string \<Rightarrow> bool" where
  "has s pluginName = (map_of (pluginsMap s) pluginName \<noteq> None)"

text \<open>The getter \<^verbatim>\<open>size\<close>: \<^verbatim>\<open>this.pluginsMap.size\<close>.\<close>

definition size_of :: "manager \<Rightarrow> nat" where
  "size_of s = length (pluginsMap s)"

definition delete :: "manager \<Rightarrow> string \<Rightarrow> (error + bool) \<times> manager" where
  "delete s pluginName =
     (case findIndex (\<lambda>plugin. unit_name s plugin = pluginName) (plugins s) of
        None \<Rightarrow> (Inr False, s)
      | Some idx \<Rightarrow>
          (case unit_destroy (plugins s ! idx) s of
             (Inl e, s1) \<Rightarrow> (Inl e, s1)
           | (Inr _, s1) \<Rightarrow>
               (Inr (map_of (pluginsMap s1) pluginName \<noteq> None),
                s1\<lparr>plugins := splice1 idx (plugins s1),
                   pluginsMap := AList.delete pluginName (pluginsMap s1)\<rparr>)))"

text \<open>
  The object \<^verbatim>\<open>pluginObj\<close> that \<^verbatim>\<open>init\<close> fills, in the order of \<^verbatim>\<open>plugins\<close>: a later
  unit of the same name replaces the earlier one under its key.
\<close>

definition pluginObj :: "manager \<Rightarrow> (string \<times> ref) list" where
  "pluginObj s =
     fold (\<lambda>plugin obj. AList.update (unit_name s plugin) plugin obj) (plugins s) []"

definition pluginNames :: "manager \<Rightarrow> string list" where
  "pluginNames s = map (unit_name s) (plugins s)"

text \<open>What the sequencer reads of \<^verbatim>\<open>pluginObj\<close>: each unit's \<^verbatim>\<open>dep\<close>.\<close>

definition tasks_of :: "manager \<Rightarrow> tasks" where
  "tasks_of s = map (\<lambda>(n, plugin). (n, unit_dep s plugin)) (pluginObj s)"

text \<open>
  One turn of the loop of \<^verbatim>\<open>init\<close>: the \<^verbatim>\<open>try\<close> block looks the name up in
  \<^verbatim>\<open>pluginsMap\<close> (a name that is not there is a \<open>TypeError\<close> of the call on
  \<^verbatim>\<open>undefined\<close>) and awaits the unit's \<^verbatim>\<open>init\<close>; the \<^verbatim>\<open>catch\<close> logs the failure.
\<close>

definition init_step :: "string \<Rightarrow> manager \<Rightarrow> (error + unit) \<times> manager" where
  "init_step pluginName s =
     (case (case map_of (pluginsMap s) pluginName of
              None \<Rightarrow> (Inl TypeError, s)
            | Some plugin \<Rightarrow> unit_init plugin s) of
        (Inl e, s1) \<Rightarrow> (Inr (), log_event (LogInitFailed pluginName e) s1)
      | (Inr _, s1) \<Rightarrow> (Inr (), s1))"

fun init_loop :: "string list \<Rightarrow> manager \<Rightarrow> (error + unit) \<times> manager" where
  "init_loop [] s = (Inr (), s)"
| "init_loop (pluginName # rest) s =
     (case init_step pluginName s of
        (Inl e, s1) \<Rightarrow> (Inl e, s1)
      | (Inr _, s1) \<Rightarrow> init_loop rest s1)"

text \<open>\<^verbatim>\<open>init\<close>, over the sequencer it calls.\<close>

definition init_with ::
  "sequencer \<Rightarrow> manager \<Rightarrow> (string \<rightharpoonup> preference) option \<Rightarrow> (error + unit) \<times> manager" where
  "init_with seqfy s pluginPreference0 =
     (let s1 = s\<lparr>pluginPreference := pluginPreference0\<rparr>;
          res = seqfy (tasks_of s1) (pluginNames s1)
      in
        case invariant (missingTasks res = []) (MissingDependencyError (missingTasks res)) of
          Inl e \<Rightarrow> (Inl e, s1)
        | Inr _ \<Rightarrow> init_loop (sequence res) (log_event (LogSequence (sequence res)) s1))"

definition init :: "manager \<Rightarrow> (string \<rightharpoonup> preference) option \<Rightarrow> (error + unit) \<times> manager" where
  "init s pluginPreference0 = init_with sequencify s pluginPreference0"

text \<open>The loop of \<^verbatim>\<open>destroy\<close>: each unit's \<^verbatim>\<open>destroy\<close> is awaited, with no \<^verbatim>\<open>try\<close>.\<close>

fun destroy_loop :: "ref list \<Rightarrow> manager \<Rightarrow> (error + unit) \<times> manager" where
  "destroy_loop [] s = (Inr (), s)"
| "destroy_loop (plugin # rest) s =
     (case unit_destroy plugin s of
        (Inl e, s1) \<Rightarrow> (Inl e, s1)
      | (Inr _, s1) \<Rightarrow> destroy_loop rest s1)"

definition destroy :: "manager \<Rightarrow> (error + unit) \<times> manager" where
  "destroy s = destroy_loop (plugins s) s"

definition dispose :: "manager \<Rightarrow> (error + unit) \<times> manager" where
  "dispose s =
     (case destroy s of
        (Inl e, s1) \<Rightarrow> (Inl e, s1)
      | (Inr _, s1) \<Rightarrow> (Inr (), s1\<lparr>plugins := [], pluginsMap := []\<rparr>))"

datatype preference_result = Null | Undefined | Preference preference

definition getPluginPreference :: "manager \<Rightarrow> string \<Rightarrow> preference_result" where
  "getPluginPreference s pluginName =
     (case pluginPreference s of
        None \<Rightarrow> Null
      | Some m \<Rightarrow> (case m pluginName of None \<Rightarrow> Undefined | Some v \<Rightarrow> Preference v))"

text \<open>
  What a property read on the surface of \<^verbatim>\<open>toProxy()\<close> yields: \<^verbatim>\<open>undefined\<close> for a
  disabled plugin, the plugin's own \<^verbatim>\<open>toProxy()\<close>, or the manager's member of that name
  (\<^verbatim>\<open>Reflect.get\<close> on the target).
\<close>

datatype proxy_value = Absent | PluginProxy ref | ManagerMember string

definition toProxy :: "manager \<Rightarrow> string \<Rightarrow> proxy_value" where
  "toProxy s prop =
     (case map_of (pluginsMap s) prop of
        Some plugin \<Rightarrow> if unit_disabled s plugin then Absent else PluginProxy plugin
      | None \<Rightarrow> ManagerMember prop)"

definition setDisabled :: "manager \<Rightarrow> string \<Rightarrow> bool \<Rightarrow> manager" where
  "setDisabled s pluginName flag =
     (let s1 = log_event (LogDisabled pluginName flag) s in
      case map_of (pluginsMap s1) pluginName of
        None \<Rightarrow> s1
      | Some plugin \<Rightarrow> unit_setDisabled plugin flag s1)"

subsection \<open>What a trace shows\<close>

text \<open>The units whose \<^verbatim>\<open>init\<close> was called, and the names whose failure was logged, in order.\<close>

fun init_calls :: "event list \<Rightarrow> ref list" where
  "init_calls [] = []"
| "init_calls (InitCalled r # es) = r # init_calls es"
| "init_calls (e # es) = init_calls es"

fun init_failures :: "event list \<Rightarrow> string list" where
  "init_failures [] = []"
| "init_failures (LogInitFailed n e # es) = n # init_failures es"
| "init_failures (e # es) = init_failures es"

fun destroy_calls :: "event list \<Rightarrow> ref list" where
  "destroy_calls [] = []"
| "destroy_calls (DestroyCalled r # es) = r # destroy_calls es"
| "destroy_calls (e # es) = destroy_calls es"

text \<open>
  The units whose \<^verbatim>\<open>init\<close> rejects: the hook has not resolved yet and throws. The names
  whose turn of the loop of \<^verbatim>\<open>init\<close> fails: no unit under the name, or one that rejects.
\<close>

definition init_throws :: "manager \<Rightarrow> ref \<Rightarrow> bool" where
  "init_throws s r =
     (case heap s r of
        None \<Rightarrow> True
      | Some p \<Rightarrow> \<not> initialized p \<and> config_init (plugin_cfg p) = Some Throws)"

definition init_fails :: "manager \<Rightarrow> string \<Rightarrow> bool" where
  "init_fails s pluginName =
     (case map_of (pluginsMap s) pluginName of
        None \<Rightarrow> True
      | Some plugin \<Rightarrow> init_throws s plugin)"

subsection \<open>The store\<close>

text \<open>
  The addresses in use are the ones below \<open>next_ref\<close>: every address the array or the
  map holds has an object, and the next address handed out is fresh.
\<close>

definition store_ok :: "manager \<Rightarrow> bool" where
  "store_ok s =
     (set (plugins s) \<subseteq> {..<next_ref s}
      \<and> snd ` set (pluginsMap s) \<subseteq> {..<next_ref s}
      \<and> dom (heap s) = {..<next_ref s})"

subsection \<open>Concrete inputs\<close>

text \<open>
  An engine of version 1.2.0. The ranges used below are single plain versions, which
  \<^verbatim>\<open>semver\<close> matches by equality of the versions.
\<close>

definition exact_env :: env where
  "exact_env =
     \<lparr>ENGINE_VERSION = ''1.2.0'',
      semverSatisfies = (\<lambda>version versionExp. version = versionExp)\<rparr>"

definition mk_meta :: "string option \<Rightarrow> string list \<Rightarrow> config_meta" where
  "mk_meta versionExp deps =
     \<lparr>meta_preferenceDeclaration = None,
      meta_engines = Some \<lparr>lowcodeEngine = versionExp\<rparr>,
      meta_dependencies = deps\<rparr>"

text \<open>A factory with a name, meta data, and a config with both hooks.\<close>

definition mk_creator :: "string \<Rightarrow> config_meta \<Rightarrow> hook \<Rightarrow> hook \<Rightarrow> creator" where
  "mk_creator n meta i d =
     \<lparr>creator_pluginName = Some n, creator_meta = Some meta,
      creator_config =
        \<lparr>config_name = None, config_init = Some i, config_destroy = Some d\<rparr>\<rparr>"

definition with_override :: "register_options option" where
  "with_override = Some \<lparr>autoInit = None, override = Some True\<rparr>"

definition with_override_autoInit :: "register_options option" where
  "with_override_autoInit = Some \<lparr>autoInit = Some True, override = Some True\<rparr>"

definition register_plain :: "manager \<Rightarrow> creator \<Rightarrow> manager" where
  "register_plain s c = snd (register exact_env s c None None)"

text \<open>One plugin \<open>x\<close>.\<close>

definition st_x :: manager where
  "st_x = register_plain new_manager (mk_creator ''x'' (mk_meta None []) Succeeds Succeeds)"

text \<open>A plugin \<open>a\<close> whose \<^verbatim>\<open>init\<close> hook throws, then a plugin \<open>b\<close>.\<close>

definition st_ab :: manager where
  "st_ab =
     register_plain
       (register_plain new_manager (mk_creator ''a'' (mk_meta None []) Throws Succeeds))
       (mk_creator ''b'' (mk_meta None []) Succeeds Succeeds)"

text \<open>A plugin \<open>c\<close> that depends on a plugin \<open>d\<close> nobody registered.\<close>

definition st_c :: manager where
  "st_c = register_plain new_manager (mk_creator ''c'' (mk_meta None [''d'']) Succeeds Succeeds)"

text \<open>A plugin \<open>f\<close> whose \<^verbatim>\<open>destroy\<close> hook throws, then a plugin \<open>g\<close>.\<close>

definition st_fg :: manager where
  "st_fg =
     register_plain
       (register_plain new_manager (mk_creator ''f'' (mk_meta None []) Succeeds Throws))
       (mk_creator ''g'' (mk_meta None []) Succeeds Succeeds)"

text \<open>Plugins \<open>p\<close> and \<open>q\<close> that depend on each other.\<close>

definition st_pq :: manager where
  "st_pq =
     register_plain
       (register_plain new_manager (mk_creator ''p'' (mk_meta None [''q'']) Succeeds Succeeds))
       (mk_creator ''q'' (mk_meta None [''p'']) Succeeds Succeeds)"

text \<open>The states \<open>st_x\<close> and \<open>st_fg\<close> after a pass of \<^verbatim>\<open>init\<close>: their units are initialised.\<close>

definition st_x_up :: manager where
  "st_x_up = snd (init st_x None)"

definition st_fg_up :: manager where
  "st_fg_up = snd (init st_fg None)"

text \<open>
  The state \<open>st_x_up\<close> after \<^verbatim>\<open>destroy\<close> of the manager: the unit \<open>x\<close> is destroyed and
  still registered.
\<close>

definition st_x_down :: manager where
  "st_x_down = snd (destroy st_x_up)"

text \<open>
  A factory whose config has an \<^verbatim>\<open>init\<close> hook and no \<^verbatim>\<open>destroy\<close> hook, as the built-in
  plugins of \<^verbatim>\<open>engine-core.ts\<close> are, and the state with one such plugin \<open>x\<close>, initialised.
\<close>

definition init_only_creator :: "string \<Rightarrow> creator" where
  "init_only_creator n =
     \<lparr>creator_pluginName = Some n, creator_meta = None,
      creator_config =
        \<lparr>config_name = None, config_init = Some Succeeds, config_destroy = None\<rparr>\<rparr>"

definition st_y_up :: manager where
  "st_y_up = snd (init (register_plain new_manager (init_only_creator ''x'')) None)"

section \<open>The concrete inputs, evaluated\<close>

lemmas register_defs =
  register_def install_def clear_existing_def effective_options_def isLowCodeRegisterOptions_def
  meta_of_def derive_pluginName_def truthy_def string_of_def invariant_def allowOverride_def
  wantsAutoInit_def engine_check_fails_def engineVersionExp_def isEngineVersionMatched_def
  new_plugin_def empty_meta_def log_event_def unit_init_def unit_destroy_def

lemmas input_defs =
  register_plain_def new_manager_def mk_creator_def mk_meta_def with_override_def
  with_override_autoInit_def exact_env_def init_only_creator_def

lemma st_x_eq:
  "st_x =
     \<lparr>plugins = [0], pluginsMap = [(''x'', 0)], pluginPreference = Some Map.empty,
      heap = [0 \<mapsto> new_plugin ''x''
                \<lparr>config_name = None, config_init = Some Succeeds,
                   config_destroy = Some Succeeds\<rparr> (mk_meta None [])],
      next_ref = 1,
      trace = [FactoryInvoked, SetPreference ''x'' None, LogRegistered ''x'']\<rparr>"
  by (simp add: st_x_def register_defs input_defs Let_def)

lemma st_c_eq:
  "st_c =
     \<lparr>plugins = [0], pluginsMap = [(''c'', 0)], pluginPreference = Some Map.empty,
      heap = [0 \<mapsto> new_plugin ''c''
                \<lparr>config_name = None, config_init = Some Succeeds,
                   config_destroy = Some Succeeds\<rparr> (mk_meta None [''d''])],
      next_ref = 1,
      trace = [FactoryInvoked, SetPreference ''c'' None, LogRegistered ''c'']\<rparr>"
  by (simp add: st_c_def register_defs input_defs Let_def)

lemma st_ab_eq:
  "st_ab =
     \<lparr>plugins = [0, 1], pluginsMap = [(''a'', 0), (''b'', 1)],
      pluginPreference = Some Map.empty,
      heap = [0 \<mapsto> new_plugin ''a''
                \<lparr>config_name = None, config_init = Some Throws,
                   config_destroy = Some Succeeds\<rparr> (mk_meta None []),
              1 \<mapsto> new_plugin ''b''
                \<lparr>config_name = None, config_init = Some Succeeds,
                   config_destroy = Some Succeeds\<rparr> (mk_meta None [])],
      next_ref = 2,
      trace = [FactoryInvoked, SetPreference ''a'' None, LogRegistered ''a'',
               FactoryInvoked, SetPreference ''b'' None, LogRegistered ''b'']\<rparr>"
  by (simp add: st_ab_def register_defs input_defs Let_def)

lemma st_fg_eq:
  "st_fg =
     \<lparr>plugins = [0, 1], pluginsMap = [(''f'', 0), (''g'', 1)],
      pluginPreference = Some Map.empty,
      heap = [0 \<mapsto> new_plugin ''f''
                \<lparr>config_name = None, config_init = Some Succeeds,
                   config_destroy = Some Throws\<rparr> (mk_meta None []),
              1 \<mapsto> new_plugin ''g''
                \<lparr>config_name = None, config_init = Some Succeeds,
                   config_destroy = Some Succeeds\<rparr> (mk_meta None [])],
      next_ref = 2,
      trace = [FactoryInvoked, SetPreference ''f'' None, LogRegistered ''f'',
               FactoryInvoked, SetPreference ''g'' None, LogRegistered ''g'']\<rparr>"
  by (simp add: st_fg_def register_defs input_defs Let_def)

lemma st_pq_eq:
  "st_pq =
     \<lparr>plugins = [0, 1], pluginsMap = [(''p'', 0), (''q'', 1)],
      pluginPreference = Some Map.empty,
      heap = [0 \<mapsto> new_plugin ''p''
                \<lparr>config_name = None, config_init = Some Succeeds,
                   config_destroy = Some Succeeds\<rparr> (mk_meta None [''q'']),
              1 \<mapsto> new_plugin ''q''
                \<lparr>config_name = None, config_init = Some Succeeds,
                   config_destroy = Some Succeeds\<rparr> (mk_meta None [''p''])],
      next_ref = 2,
      trace = [FactoryInvoked, SetPreference ''p'' None, LogRegistered ''p'',
               FactoryInvoked, SetPreference ''q'' None, LogRegistered ''q'']\<rparr>"
  by (simp add: st_pq_def register_defs input_defs Let_def)

lemmas collect_defs = tasks_of_def pluginObj_def pluginNames_def unit_name_def unit_dep_def
  new_plugin_def mk_meta_def

lemma st_ab_tasks:
  "tasks_of st_ab = [(''a'', []), (''b'', [])]" "pluginNames st_ab = [''a'', ''b'']"
  by (simp_all add: st_ab_eq collect_defs)

lemma st_c_tasks:
  "tasks_of st_c = [(''c'', [''d''])]" "pluginNames st_c = [''c'']"
  by (simp_all add: st_c_eq collect_defs)

lemma st_pq_tasks:
  "tasks_of st_pq = [(''p'', [''q'']), (''q'', [''p''])]" "pluginNames st_pq = [''p'', ''q'']"
  by (simp_all add: st_pq_eq collect_defs)

lemma st_ab_sequence:
  "sequencify [(''a'', []), (''b'', [])] [''a'', ''b'']
     = \<lparr>sequence = [''a'', ''b''], missingTasks = []\<rparr>"
  by (simp add: sequencify_def Let_def)

lemma st_c_sequence:
  "sequencify [(''c'', [''d''])] [''c''] = \<lparr>sequence = [], missingTasks = [''d'']\<rparr>"
  by (simp add: sequencify_def Let_def)

lemma st_pq_sequence:
  "sequencify [(''p'', [''q'']), (''q'', [''p''])] [''p'', ''q'']
     = \<lparr>sequence = [], missingTasks = [''p'', ''q'']\<rparr>"
  by (simp add: sequencify_def Let_def)

lemmas init_defs =
  init_def init_with_def init_step_def invariant_def sequencify_def unit_init_def log_event_def

lemma st_x_up_eq:
  "st_x_up =
     \<lparr>plugins = [0], pluginsMap = [(''x'', 0)], pluginPreference = None,
      heap = [0 \<mapsto> (new_plugin ''x''
                \<lparr>config_name = None, config_init = Some Succeeds,
                   config_destroy = Some Succeeds\<rparr> (mk_meta None []))
                \<lparr>initialized := True\<rparr>],
      next_ref = 1,
      trace = [FactoryInvoked, SetPreference ''x'' None, LogRegistered ''x'',
               LogSequence [''x''], InitCalled 0, InitHookRun 0]\<rparr>"
  by (simp add: st_x_up_def st_x_eq init_defs collect_defs Let_def)

lemma st_fg_up_eq:
  "st_fg_up =
     \<lparr>plugins = [0, 1], pluginsMap = [(''f'', 0), (''g'', 1)], pluginPreference = None,
      heap = [0 \<mapsto> (new_plugin ''f''
                \<lparr>config_name = None, config_init = Some Succeeds,
                   config_destroy = Some Throws\<rparr> (mk_meta None []))
                \<lparr>initialized := True\<rparr>,
              1 \<mapsto> (new_plugin ''g''
                \<lparr>config_name = None, config_init = Some Succeeds,
                   config_destroy = Some Succeeds\<rparr> (mk_meta None []))
                \<lparr>initialized := True\<rparr>],
      next_ref = 2,
      trace = [FactoryInvoked, SetPreference ''f'' None, LogRegistered ''f'',
               FactoryInvoked, SetPreference ''g'' None, LogRegistered ''g'',
               LogSequence [''f'', ''g''], InitCalled 0, InitHookRun 0,
               InitCalled 1, InitHookRun 1]\<rparr>"
  by (simp add: st_fg_up_def st_fg_eq init_defs collect_defs Let_def)

lemma st_x_down_eq:
  "st_x_down =
     \<lparr>plugins = [0], pluginsMap = [(''x'', 0)], pluginPreference = None,
      heap = [0 \<mapsto> (new_plugin ''x''
                \<lparr>config_name = None, config_init = Some Succeeds,
                   config_destroy = Some Succeeds\<rparr> (mk_meta None []))
                \<lparr>initialized := True, destroyed := True\<rparr>],
      next_ref = 1,
      trace = [FactoryInvoked, SetPreference ''x'' None, LogRegistered ''x'',
               LogSequence [''x''], InitCalled 0, InitHookRun 0,
               DestroyCalled 0, DestroyHookRun 0]\<rparr>"
  by (simp add: st_x_down_def st_x_up_eq destroy_def unit_destroy_def log_event_def
      new_plugin_def Let_def)

lemma st_y_up_eq:
  "st_y_up =
     \<lparr>plugins = [0], pluginsMap = [(''x'', 0)], pluginPreference = None,
      heap = [0 \<mapsto> (new_plugin ''x''
                \<lparr>config_name = None, config_init = Some Succeeds,
                   config_destroy = None\<rparr> empty_meta)
                \<lparr>initialized := True\<rparr>],
      next_ref = 1,
      trace = [FactoryInvoked, SetPreference ''x'' None, LogRegistered ''x'',
               LogSequence [''x''], InitCalled 0, InitHookRun 0]\<rparr>"
  by (simp add: st_y_up_def register_defs input_defs init_defs collect_defs Let_def)

lemma init_calls_append [simp]: "init_calls (xs @ ys) = init_calls xs @ init_calls ys"
  by (induction xs rule: init_calls.induct) simp_all

lemma init_failures_append [simp]:
  "init_failures (xs @ ys) = init_failures xs @ init_failures ys"
  by (induction xs rule: init_failures.induct) simp_all

lemma unit_init_frame:
  "unit_init r s = (res, s') \<Longrightarrow>
     plugins s' = plugins s \<and> pluginsMap s' = pluginsMap s
     \<and> pluginPreference s' = pluginPreference s \<and> next_ref s' = next_ref s"
  by (auto simp: unit_init_def log_event_def Let_def split: option.splits if_splits hook.splits)

lemma unit_init_calls:
  "unit_init r s = (res, s') \<Longrightarrow>
     init_calls (trace s') = init_calls (trace s) @ [r]
     \<and> init_failures (trace s') = init_failures (trace s)"
  by (auto simp: unit_init_def log_event_def Let_def split: option.splits if_splits hook.splits)

lemma unit_init_result:
  "unit_init r s = (res, s') \<Longrightarrow> (res = Inr ()) = (\<not> init_throws s r)"
  by (auto simp: unit_init_def init_throws_def log_event_def Let_def
      split: option.splits if_splits hook.splits)

lemma unit_init_throws_stable:
  "unit_init r s = (res, s') \<Longrightarrow> init_throws s' q = init_throws s q"
  by (auto simp: unit_init_def init_throws_def log_event_def Let_def
      split: option.splits if_splits hook.splits)

lemma init_step_props:
  assumes "init_step n s = (res, s')"
  shows "res = Inr ()"
    and "plugins s' = plugins s" and "pluginsMap s' = pluginsMap s"
    and "pluginPreference s' = pluginPreference s"
    and "init_throws s' q = init_throws s q"
    and "init_calls (trace s') = init_calls (trace s) @ (case map_of (pluginsMap s) n of None \<Rightarrow> [] | Some r \<Rightarrow> [r])"
    and "init_failures (trace s') = init_failures (trace s) @ (if init_fails s n then [n] else [])"
proof -
  show "res = Inr ()" using assms
    by (auto simp: init_step_def split: option.splits prod.splits sum.splits)
  show "plugins s' = plugins s" "pluginsMap s' = pluginsMap s" "pluginPreference s' = pluginPreference s" using assms
    by (auto simp: init_step_def log_event_def split: option.splits prod.splits sum.splits dest: unit_init_frame)
  show "init_throws s' q = init_throws s q" using assms
    by (auto simp: init_step_def log_event_def init_throws_def split: option.splits prod.splits sum.splits dest: unit_init_throws_stable[where q=q])
  show "init_calls (trace s') = init_calls (trace s) @ (case map_of (pluginsMap s) n of None \<Rightarrow> [] | Some r \<Rightarrow> [r])"
    using assms
    by (auto simp: init_step_def log_event_def split: option.splits prod.splits sum.splits dest: unit_init_calls)
  show "init_failures (trace s') = init_failures (trace s) @ (if init_fails s n then [n] else [])"
    using assms
    by (auto simp: init_step_def log_event_def init_fails_def split: option.splits prod.splits sum.splits dest: unit_init_calls unit_init_result)
qed


lemma init_loop_props:
  "init_loop ns s = (res, s') \<Longrightarrow>
     res = Inr () \<and> plugins s' = plugins s \<and> pluginsMap s' = pluginsMap s
     \<and> pluginPreference s' = pluginPreference s
     \<and> init_calls (trace s') = init_calls (trace s) @ List.map_filter (map_of (pluginsMap s)) ns
     \<and> init_failures (trace s') = init_failures (trace s) @ filter (init_fails s) ns"
proof (induction ns arbitrary: s)
  case Nil
  then show ?case by (simp add: List.map_filter_simps)
next
  case (Cons n ns)
  obtain r1 s1 where step: "init_step n s = (r1, s1)" by (cases "init_step n s")
  note P = init_step_props [OF step]
  from Cons.prems step P(1) have loop: "init_loop ns s1 = (res, s')" by simp
  have fails: "init_fails s1 = init_fails s"
    by (rule ext) (simp add: init_fails_def P(3) P(5) split: option.splits)
  from Cons.IH [OF loop] P fails show ?case
    by (simp add: List.map_filter_simps split: option.splits)
qed

lemma tasks_of_pluginPreference [simp]:
  "tasks_of (s\<lparr>pluginPreference := x\<rparr>) = tasks_of s"
  by (simp add: tasks_of_def pluginObj_def unit_name_def unit_dep_def)

lemma pluginNames_pluginPreference [simp]:
  "pluginNames (s\<lparr>pluginPreference := x\<rparr>) = pluginNames s"
  by (simp add: pluginNames_def unit_name_def)

lemma init_fails_frame [simp]:
  "init_fails (log_event e (s\<lparr>pluginPreference := x\<rparr>)) = init_fails s"
  by (rule ext) (simp add: init_fails_def init_throws_def log_event_def split: option.splits)


lemma init_with_sequenced:
  assumes "missingTasks (seqfy (tasks_of s) (pluginNames s)) = []"
  shows "init_with seqfy s prefs
     = init_loop (sequence (seqfy (tasks_of s) (pluginNames s)))
         (log_event (LogSequence (sequence (seqfy (tasks_of s) (pluginNames s))))
            (s\<lparr>pluginPreference := prefs\<rparr>))"
  using assms by (simp add: init_with_def invariant_def Let_def)

lemma init_with_missing:
  assumes "missingTasks (seqfy (tasks_of s) (pluginNames s)) \<noteq> []"
  shows "init_with seqfy s prefs
     = (Inl (MissingDependencyError (missingTasks (seqfy (tasks_of s) (pluginNames s)))),
        s\<lparr>pluginPreference := prefs\<rparr>)"
  using assms by (simp add: init_with_def invariant_def Let_def)

lemma init_with_pluginPreference:
  "pluginPreference (snd (init_with seqfy s prefs)) = prefs"
proof (cases "missingTasks (seqfy (tasks_of s) (pluginNames s)) = []")
  case True
  let ?res = "seqfy (tasks_of s) (pluginNames s)"
  let ?s1 = "log_event (LogSequence (sequence ?res)) (s\<lparr>pluginPreference := prefs\<rparr>)"
  obtain r s' where loop: "init_loop (sequence ?res) ?s1 = (r, s')"
    by (cases "init_loop (sequence ?res) ?s1")
  from init_loop_props [OF loop] show ?thesis
    by (simp add: init_with_sequenced [of seqfy s, OF True] loop) (simp add: log_event_def)
next
  case False
  then show ?thesis by (simp add: init_with_missing [of seqfy s])
qed

section \<open>The init pass\<close>

text \<open>
  Claim C3. In the ordered pass of \<^verbatim>\<open>init\<close>, a unit whose \<^verbatim>\<open>init\<close> throws or rejects is
  caught and logged, the units after it in the sequence still have their \<^verbatim>\<open>init\<close>
  called, and \<^verbatim>\<open>init\<close> of the manager resolves. Whenever the sequencer reports no missing
  task, whatever sequencer it is: the result is \<open>Inr\<close>; the calls of \<^verbatim>\<open>init\<close> the pass adds
  to the trace are those of the units that \<^verbatim>\<open>pluginsMap\<close> holds under the names of the
  sequence, all of them and in its order; and the failures it logs are those of the
  names of the sequence whose turn fails, each one.
\<close>

theorem init_isolates_failures:
  assumes "missingTasks (seqfy (tasks_of s) (pluginNames s)) = []"
  shows "fst (init_with seqfy s prefs) = Inr ()
     \<and> init_calls (trace (snd (init_with seqfy s prefs)))
         = init_calls (trace s)
           @ List.map_filter (map_of (pluginsMap s))
               (sequence (seqfy (tasks_of s) (pluginNames s)))
     \<and> init_failures (trace (snd (init_with seqfy s prefs)))
         = init_failures (trace s)
           @ filter (init_fails s) (sequence (seqfy (tasks_of s) (pluginNames s)))"
proof -
  let ?res = "seqfy (tasks_of s) (pluginNames s)"
  let ?s1 = "log_event (LogSequence (sequence ?res)) (s\<lparr>pluginPreference := prefs\<rparr>)"
  obtain r s' where loop: "init_loop (sequence ?res) ?s1 = (r, s')"
    by (cases "init_loop (sequence ?res) ?s1")
  from init_loop_props [OF loop] show ?thesis
    by (simp add: init_with_sequenced [of seqfy s, OF assms] loop) (simp add: log_event_def)
qed

theorem init_isolates_failures_witness:
  "missingTasks (sequencify (tasks_of st_ab) (pluginNames st_ab)) = []
   \<and> fst (init_with sequencify st_ab None) = Inr ()
   \<and> init_calls (trace (snd (init_with sequencify st_ab None))) = [0, 1]
   \<and> init_failures (trace (snd (init_with sequencify st_ab None))) = [''a'']"
  using init_isolates_failures [of sequencify st_ab None]
  by (simp add: st_ab_tasks st_ab_sequence)
     (simp add: st_ab_eq List.map_filter_simps init_fails_def init_throws_def new_plugin_def)

text \<open>
  Claim C4. When the sequencer reports a missing task, \<^verbatim>\<open>init\<close> of the manager throws
  before it calls the \<^verbatim>\<open>init\<close> of any unit: the result is the error with the reported
  names, and the trace and the store of the units are those of before the call.
\<close>

theorem init_aborts_on_missing:
  assumes "missingTasks (seqfy (tasks_of s) (pluginNames s)) \<noteq> []"
  shows "fst (init_with seqfy s prefs)
       = Inl (MissingDependencyError (missingTasks (seqfy (tasks_of s) (pluginNames s))))
     \<and> trace (snd (init_with seqfy s prefs)) = trace s
     \<and> init_calls (trace (snd (init_with seqfy s prefs))) = init_calls (trace s)
     \<and> heap (snd (init_with seqfy s prefs)) = heap s"
  by (simp add: init_with_missing [of seqfy s, OF assms])

theorem init_aborts_on_missing_witness:
  "missingTasks (sequencify (tasks_of st_c) (pluginNames st_c)) \<noteq> []
   \<and> fst (init_with sequencify st_c None) = Inl (MissingDependencyError [''d''])
   \<and> trace (snd (init_with sequencify st_c None)) = trace st_c
   \<and> init_calls (trace (snd (init_with sequencify st_c None))) = []
   \<and> heap (snd (init_with sequencify st_c None)) = heap st_c"
  using init_aborts_on_missing [of sequencify st_c None]
  by (simp add: st_c_tasks st_c_sequence) (simp add: st_c_eq)

text \<open>
  Claim C10. \<^verbatim>\<open>init\<close> called with no preference map stores the absent value in place of
  the snapshot the manager held, the empty map of a new manager included, so that
  \<^verbatim>\<open>getPluginPreference\<close> answers \<^verbatim>\<open>null\<close> for every name afterwards.
\<close>

theorem init_without_preference:
  "pluginPreference (snd (init s None)) = None
   \<and> getPluginPreference (snd (init s None)) pluginName = Null"
  by (simp add: init_def init_with_pluginPreference getPluginPreference_def)

theorem init_without_preference_witness:
  "getPluginPreference new_manager ''x'' = Undefined
   \<and> pluginPreference (snd (init new_manager None)) = None
   \<and> getPluginPreference (snd (init new_manager None)) ''x'' = Null"
  using init_without_preference [of new_manager "''x''"]
  by (simp add: getPluginPreference_def new_manager_def)

section \<open>The store stays in order\<close>

text \<open>
  The new manager has \<open>store_ok\<close> and every operation of the manager keeps it; in such
  a state every registered address has its object and the next address is fresh.
\<close>

lemma store_ok_new: "store_ok new_manager"
  by (simp add: store_ok_def new_manager_def)

lemma store_ok_log [simp]: "store_ok (log_event e s) = store_ok s"
  by (simp add: store_ok_def log_event_def)

lemma unit_destroy_frame':
  "plugins (snd (unit_destroy r s)) = plugins s"
  "pluginsMap (snd (unit_destroy r s)) = pluginsMap s"
  "pluginPreference (snd (unit_destroy r s)) = pluginPreference s"
  "next_ref (snd (unit_destroy r s)) = next_ref s"
  by (auto simp: unit_destroy_def log_event_def Let_def split: option.splits hook.splits)

lemma unit_init_dom: "dom (heap (snd (unit_init r s))) = dom (heap s)"
  by (auto simp: unit_init_def log_event_def Let_def split: option.splits hook.splits if_splits)

lemma unit_destroy_dom: "dom (heap (snd (unit_destroy r s))) = dom (heap s)"
  by (auto simp: unit_destroy_def log_event_def Let_def split: option.splits hook.splits if_splits)

lemma unit_init_frame':
  "plugins (snd (unit_init r s)) = plugins s"
  "pluginsMap (snd (unit_init r s)) = pluginsMap s"
  "pluginPreference (snd (unit_init r s)) = pluginPreference s"
  "next_ref (snd (unit_init r s)) = next_ref s"
  by (auto simp: unit_init_def log_event_def Let_def split: option.splits hook.splits)

lemma store_ok_unit_init: "store_ok s \<Longrightarrow> store_ok (snd (unit_init r s))"
  by (simp add: store_ok_def unit_init_dom unit_init_frame')

lemma store_ok_unit_destroy: "store_ok s \<Longrightarrow> store_ok (snd (unit_destroy r s))"
  by (simp add: store_ok_def unit_destroy_dom unit_destroy_frame')

lemma snd_set_delete: "snd ` set (AList.delete k m) \<subseteq> snd ` set m"
  by (induction m) auto

lemma snd_set_update: "snd ` set (AList.update k v m) \<subseteq> insert v (snd ` set m)"
  by (induction m) auto

lemma store_ok_clear_existing:
  assumes "store_ok s"
  shows "store_ok (clear_existing name s)"
proof (cases "map_of (pluginsMap s) name")
  case None
  then show ?thesis using assms by (simp add: clear_existing_def)
next
  case (Some r)
  let ?s' = "snd (unit_destroy r (log_event (LogOverride name r) s))"
  have ok: "store_ok ?s'" using assms by (simp add: store_ok_unit_destroy)
  have ce: "clear_existing name s = ?s'\<lparr>pluginsMap := AList.delete name (pluginsMap ?s')\<rparr>"
    using Some by (simp add: clear_existing_def Let_def)
  have "snd ` set (AList.delete name (pluginsMap ?s')) \<subseteq> {..<next_ref ?s'}"
    using ok snd_set_delete [of name "pluginsMap ?s'"] unfolding store_ok_def by blast
  then show ?thesis using ok unfolding ce store_ok_def by simp
qed

lemma store_ok_install:
  assumes "store_ok s"
  shows "store_ok (snd (install name config meta ro s))"
proof -
  let ?s4 = "s\<lparr>heap := (heap s)(next_ref s \<mapsto> new_plugin name config meta),
               next_ref := Suc (next_ref s)\<rparr>"
  let ?r5 = "if wantsAutoInit ro then unit_init (next_ref s) ?s4 else (Inr (), ?s4)"
  obtain res s5 where r5: "?r5 = (res, s5)" by (cases ?r5)
  have inst: "install name config meta ro s
      = (case res of
           Inl e \<Rightarrow> (Inl e, s5)
         | Inr u \<Rightarrow>
             (Inr (),
              log_event (LogRegistered name)
                (s5\<lparr>plugins := plugins s5 @ [next_ref s],
                    pluginsMap := AList.update name (next_ref s) (pluginsMap s5)\<rparr>)))"
    unfolding install_def Let_def r5 by simp
  have ok4: "store_ok ?s4"
    using assms unfolding store_ok_def by (auto simp: lessThan_Suc)
  have s5: "s5 = snd ?r5" by (simp only: r5 snd_conv)
  have ok5: "store_ok s5"
    unfolding s5 using ok4 by (simp add: store_ok_unit_init)
  have n5: "next_ref s5 = Suc (next_ref s)"
    unfolding s5 by (simp add: unit_init_frame')
  show ?thesis
  proof (cases res)
    case (Inl e)
    then show ?thesis using ok5 by (simp add: inst)
  next
    case (Inr u)
    have "insert (next_ref s) (snd ` set (pluginsMap s5)) \<subseteq> {..<Suc (next_ref s)}"
      using ok5 n5 unfolding store_ok_def by simp
    then have "snd ` set (AList.update name (next_ref s) (pluginsMap s5))
        \<subseteq> {..<Suc (next_ref s)}"
      using snd_set_update [of name "next_ref s" "pluginsMap s5"] by blast
    then show ?thesis
      using ok5 n5 Inr unfolding inst store_ok_def log_event_def by auto
  qed
qed

lemma store_ok_register:
  assumes "store_ok s"
  shows "store_ok (snd (register E s c options registerOptions))"
proof -
  let ?name = "string_of (derive_pluginName c)"
  let ?ro = "effective_options options registerOptions"
  let ?s1 = "log_event FactoryInvoked s"
  let ?s2 = "log_event (SetPreference ?name (meta_preferenceDeclaration (meta_of c))) ?s1"
  let ?s3 = "clear_existing ?name ?s2"
  have ok1: "store_ok ?s1" and ok2: "store_ok ?s2" using assms by simp_all
  have ok3: "store_ok ?s3" using ok2 by (rule store_ok_clear_existing)
  have ok4: "store_ok (snd (install ?name (creator_config c) (meta_of c) ?ro ?s3))"
    using ok3 by (rule store_ok_install)
  consider (unnamed) "\<not> truthy (derive_pluginName c)"
    | (duplicate) "truthy (derive_pluginName c)"
        "map_of (pluginsMap ?s2) ?name \<noteq> None \<and> \<not> allowOverride ?ro"
    | (gate) "truthy (derive_pluginName c)"
        "\<not> (map_of (pluginsMap ?s2) ?name \<noteq> None \<and> \<not> allowOverride ?ro)"
        "engine_check_fails E (meta_of c)"
    | (installed) "truthy (derive_pluginName c)"
        "\<not> (map_of (pluginsMap ?s2) ?name \<noteq> None \<and> \<not> allowOverride ?ro)"
        "\<not> engine_check_fails E (meta_of c)"
    by blast
  then show ?thesis
  proof cases
    case unnamed
    then have "snd (register E s c options registerOptions) = ?s1"
      by (simp add: register_def Let_def invariant_def)
    then show ?thesis using ok1 by simp
  next
    case duplicate
    then have "snd (register E s c options registerOptions) = ?s2"
      by (simp add: register_def Let_def invariant_def)
    then show ?thesis using ok2 by simp
  next
    case gate
    then have "snd (register E s c options registerOptions) = ?s3"
      by (auto simp: register_def Let_def invariant_def)
    then show ?thesis using ok3 by simp
  next
    case installed
    then have "register E s c options registerOptions
        = install ?name (creator_config c) (meta_of c) ?ro ?s3"
      by (auto simp: register_def Let_def invariant_def)
    then show ?thesis using ok4 by simp
  qed
qed

lemma store_ok_registered:
  assumes "store_ok s" and "get s name = Some r"
  shows "heap s r \<noteq> None" and "r \<noteq> next_ref s" and "heap s (next_ref s) = None"
proof -
  have "(name, r) \<in> set (pluginsMap s)" using assms(2) by (simp add: get_def map_of_SomeD)
  then have "r \<in> snd ` set (pluginsMap s)" by force
  then have lt: "r < next_ref s" using assms(1) by (auto simp: store_ok_def)
  show "heap s r \<noteq> None" using lt assms(1) by (auto simp: store_ok_def)
  show "r \<noteq> next_ref s" using lt by simp
  show "heap s (next_ref s) = None" using assms(1) unfolding store_ok_def
    by (metis domIff lessThan_iff less_irrefl)
qed

lemma store_ok_init_step: "store_ok s \<Longrightarrow> store_ok (snd (init_step n s))"
proof -
  assume ok: "store_ok s"
  show ?thesis
  proof (cases "map_of (pluginsMap s) n")
    case None
    then show ?thesis using ok by (simp add: init_step_def)
  next
    case (Some r)
    obtain res s1 where ui: "unit_init r s = (res, s1)" by (cases "unit_init r s")
    have "store_ok s1" using store_ok_unit_init [OF ok, of r] by (simp add: ui)
    then show ?thesis using Some ui by (cases res) (simp_all add: init_step_def)
  qed
qed

lemma store_ok_init_loop: "store_ok s \<Longrightarrow> store_ok (snd (init_loop ns s))"
proof (induction ns arbitrary: s)
  case Nil
  then show ?case by simp
next
  case (Cons n ns)
  obtain res s1 where step: "init_step n s = (res, s1)" by (cases "init_step n s")
  have ok1: "store_ok s1" using store_ok_init_step [OF Cons.prems, of n] by (simp add: step)
  show ?case using Cons.IH [OF ok1] ok1 step by (cases res) simp_all
qed

lemma store_ok_pluginPreference [simp]:
  "store_ok (s\<lparr>pluginPreference := x\<rparr>) = store_ok s"
  by (simp add: store_ok_def)

lemma store_ok_init_with: "store_ok s \<Longrightarrow> store_ok (snd (init_with seqfy s prefs))"
  by (cases "missingTasks (seqfy (tasks_of s) (pluginNames s)) = []")
     (simp_all add: init_with_sequenced [of seqfy s] init_with_missing [of seqfy s]
        store_ok_init_loop)

lemma store_ok_destroy_loop: "store_ok s \<Longrightarrow> store_ok (snd (destroy_loop rs s))"
proof (induction rs arbitrary: s)
  case Nil
  then show ?case by simp
next
  case (Cons r rs)
  obtain res s1 where ud: "unit_destroy r s = (res, s1)" by (cases "unit_destroy r s")
  have ok1: "store_ok s1" using store_ok_unit_destroy [OF Cons.prems, of r] by (simp add: ud)
  show ?case using Cons.IH [OF ok1] ok1 ud by (cases res) simp_all
qed

lemma store_ok_dispose: "store_ok s \<Longrightarrow> store_ok (snd (dispose s))"
proof -
  assume ok: "store_ok s"
  obtain res s1 where d: "destroy s = (res, s1)" by (cases "destroy s")
  have "store_ok s1" using store_ok_destroy_loop [OF ok, of "plugins s"] d
    by (simp add: destroy_def)
  then show ?thesis using d by (cases res) (simp_all add: dispose_def store_ok_def)
qed

lemma splice1_subset: "set (splice1 idx xs) \<subseteq> set xs"
proof -
  have "set (take idx xs) \<subseteq> set xs" by (rule set_take_subset)
  moreover have "set (drop (Suc idx) xs) \<subseteq> set xs" by (rule set_drop_subset)
  ultimately show ?thesis by (simp add: splice1_def)
qed

lemma store_ok_shrink:
  assumes "store_ok s" and "set ps \<subseteq> set (plugins s)"
    and "snd ` set m \<subseteq> snd ` set (pluginsMap s)"
  shows "store_ok (s\<lparr>plugins := ps, pluginsMap := m\<rparr>)"
proof -
  have "set ps \<subseteq> {..<next_ref s}"
    using assms(1,2) unfolding store_ok_def by (blast intro: subset_trans)
  moreover have "snd ` set m \<subseteq> {..<next_ref s}"
    using assms(1,3) unfolding store_ok_def by (blast intro: subset_trans)
  moreover have "dom (heap s) = {..<next_ref s}"
    using assms(1) unfolding store_ok_def by (elim conjE)
  ultimately show ?thesis unfolding store_ok_def by simp
qed

lemma store_ok_delete: "store_ok s \<Longrightarrow> store_ok (snd (delete s pluginName))"
proof -
  assume ok: "store_ok s"
  show ?thesis
  proof (cases "findIndex (\<lambda>plugin. unit_name s plugin = pluginName) (plugins s)")
    case None
    then show ?thesis using ok by (simp add: delete_def)
  next
    case (Some idx)
    obtain res s1 where ud: "unit_destroy (plugins s ! idx) s = (res, s1)"
      by (cases "unit_destroy (plugins s ! idx) s")
    have ok1: "store_ok s1"
      using store_ok_unit_destroy [OF ok, of "plugins s ! idx"] by (simp add: ud)
    have ok2: "store_ok (s1\<lparr>plugins := splice1 idx (plugins s1),
        pluginsMap := AList.delete pluginName (pluginsMap s1)\<rparr>)"
      using ok1 splice1_subset snd_set_delete by (rule store_ok_shrink)
    show ?thesis
    proof (cases res)
      case (Inl e)
      then show ?thesis using Some ud ok1 by (simp add: delete_def)
    next
      case (Inr u)
      then show ?thesis using Some ud ok2 by (simp add: delete_def)
    qed
  qed
qed

lemma unit_setDisabled_frame:
  "plugins (unit_setDisabled r flag s) = plugins s"
  "pluginsMap (unit_setDisabled r flag s) = pluginsMap s"
  "next_ref (unit_setDisabled r flag s) = next_ref s"
  "dom (heap (unit_setDisabled r flag s)) = dom (heap s)"
  by (auto simp: unit_setDisabled_def split: option.splits)

lemma store_ok_setDisabled: "store_ok s \<Longrightarrow> store_ok (setDisabled s pluginName flag)"
proof -
  assume ok: "store_ok s"
  have "store_ok (unit_setDisabled r flag (log_event e s))" for r e
    using ok by (simp add: store_ok_def unit_setDisabled_frame) (simp add: log_event_def)
  then show ?thesis
    using ok by (simp add: setDisabled_def Let_def split: option.splits)
qed

section \<open>Registration\<close>

text \<open>
  Claim C7. In a state where a unit is registered under the name \<open>x\<close>, a call of
  \<^verbatim>\<open>register\<close> that derives the name \<open>x\<close> and does not ask for the override (the options
  taken from the second place when they stand there) throws the duplicate error, and
  \<^verbatim>\<open>get\<close> still returns the unit it returned before; the array, the map and the units
  themselves are untouched.
\<close>

theorem register_duplicate_rejected:
  assumes "get s x = Some r" and "derive_pluginName c = Some x" and "x \<noteq> []"
    and "\<not> allowOverride (effective_options options registerOptions)"
  shows "fst (register E s c options registerOptions) = Inl (DuplicatePluginError x)
     \<and> get (snd (register E s c options registerOptions)) x = Some r
     \<and> plugins (snd (register E s c options registerOptions)) = plugins s
     \<and> pluginsMap (snd (register E s c options registerOptions)) = pluginsMap s
     \<and> heap (snd (register E s c options registerOptions)) = heap s"
  using assms
  by (simp add: register_def get_def Let_def invariant_def truthy_def string_of_def log_event_def)

theorem register_duplicate_rejected_witness:
  "get st_x ''x'' = Some 0
   \<and> derive_pluginName (mk_creator ''x'' (mk_meta None []) Succeeds Succeeds) = Some ''x''
   \<and> \<not> allowOverride (effective_options None None)
   \<and> fst (register exact_env st_x (mk_creator ''x'' (mk_meta None []) Succeeds Succeeds)
              None None)
       = Inl (DuplicatePluginError ''x'')
   \<and> get (snd (register exact_env st_x (mk_creator ''x'' (mk_meta None []) Succeeds Succeeds)
                  None None)) ''x''
       = Some 0"
  using register_duplicate_rejected
    [where s = st_x and x = "''x''" and r = 0 and E = exact_env and options = None
       and registerOptions = None
       and c = "mk_creator ''x'' (mk_meta None []) Succeeds Succeeds"]
  by (simp add: st_x_eq get_def derive_pluginName_def truthy_def mk_creator_def
      allowOverride_def effective_options_def isLowCodeRegisterOptions_def)

section \<open>The proxy surface\<close>

text \<open>
  Claim C9. On the surface of \<^verbatim>\<open>toProxy()\<close>, the name of a registered plugin that is not
  disabled yields the proxy of that unit, and the name of a disabled one yields
  \<^verbatim>\<open>undefined\<close>; after \<^verbatim>\<open>setDisabled(name, true)\<close> the lookup is \<^verbatim>\<open>undefined\<close> while \<^verbatim>\<open>has\<close>
  and \<^verbatim>\<open>get\<close> still report the unit, and \<^verbatim>\<open>setDisabled(name, false)\<close> brings the proxy
  back; a property that is no registered name is the manager's own member. The unit
  \<open>p\<close> is the object at the registered address, which is there wherever \<open>store_ok\<close>
  holds (lemma \<open>store_ok_registered\<close>).
\<close>

theorem toProxy_lookup:
  assumes "get s name = Some r" and "heap s r = Some p" and "\<not> has s other"
  shows "toProxy s name = (if disabled p then Absent else PluginProxy r)
     \<and> toProxy (setDisabled s name True) name = Absent
     \<and> has (setDisabled s name True) name
     \<and> get (setDisabled s name True) name = Some r
     \<and> toProxy (setDisabled s name False) name = PluginProxy r
     \<and> toProxy s other = ManagerMember other"
  using assms
  by (simp add: toProxy_def get_def has_def setDisabled_def unit_setDisabled_def
      unit_disabled_def log_event_def Let_def)

theorem toProxy_lookup_witness:
  "get st_x ''x'' = Some 0
   \<and> \<not> has st_x ''register''
   \<and> toProxy st_x ''x'' = PluginProxy 0
   \<and> toProxy (setDisabled st_x ''x'' True) ''x'' = Absent
   \<and> has (setDisabled st_x ''x'' True) ''x''
   \<and> get (setDisabled st_x ''x'' True) ''x'' = Some 0
   \<and> toProxy (setDisabled st_x ''x'' False) ''x'' = PluginProxy 0
   \<and> toProxy st_x ''register'' = ManagerMember ''register''"
  using toProxy_lookup
    [where s = st_x and name = "''x''" and r = 0 and other = "''register''"
       and p = "new_plugin ''x''
                  \<lparr>config_name = None, config_init = Some Succeeds,
                     config_destroy = Some Succeeds\<rparr> (mk_meta None [])"]
  by (simp add: st_x_eq get_def has_def new_plugin_def)

section \<open>Registration with override\<close>

lemma unit_destroy_at:
  assumes "heap s r = Some p"
  shows "trace (snd (unit_destroy r s))
       = trace s @ DestroyCalled r
           # (if \<not> destroyed p \<and> config_destroy (plugin_cfg p) \<noteq> None
              then [DestroyHookRun r] else [])"
    and "q \<noteq> r \<Longrightarrow> heap (snd (unit_destroy r s)) q = heap s q"
  using assms
  by (auto simp: unit_destroy_def log_event_def Let_def split: option.splits hook.splits)

lemma clear_existing_at:
  assumes "map_of (pluginsMap s) x = Some r0" and "heap s r0 = Some p0"
  shows "trace (clear_existing x s)
       = trace s @ [LogOverride x r0, DestroyCalled r0]
           @ (if \<not> destroyed p0 \<and> config_destroy (plugin_cfg p0) \<noteq> None
              then [DestroyHookRun r0] else [])"
    and "pluginsMap (clear_existing x s) = AList.delete x (pluginsMap s)"
    and "plugins (clear_existing x s) = plugins s"
    and "next_ref (clear_existing x s) = next_ref s"
    and "q \<noteq> r0 \<Longrightarrow> heap (clear_existing x s) q = heap s q"
proof -
  let ?s = "log_event (LogOverride x r0) s"
  have h: "heap ?s r0 = Some p0" using assms(2) by (simp add: log_event_def)
  have ce: "clear_existing x s
      = (snd (unit_destroy r0 ?s))\<lparr>pluginsMap := AList.delete x (pluginsMap (snd (unit_destroy r0 ?s)))\<rparr>"
    using assms(1) by (simp add: clear_existing_def Let_def)
  show "trace (clear_existing x s)
       = trace s @ [LogOverride x r0, DestroyCalled r0]
           @ (if \<not> destroyed p0 \<and> config_destroy (plugin_cfg p0) \<noteq> None
              then [DestroyHookRun r0] else [])"
    by (simp add: ce unit_destroy_at(1) [OF h]) (simp add: log_event_def)
  show "pluginsMap (clear_existing x s) = AList.delete x (pluginsMap s)"
    by (simp add: ce unit_destroy_frame') (simp add: log_event_def)
  show "plugins (clear_existing x s) = plugins s"
    by (simp add: ce unit_destroy_frame') (simp add: log_event_def)
  show "next_ref (clear_existing x s) = next_ref s"
    by (simp add: ce unit_destroy_frame') (simp add: log_event_def)
  show "q \<noteq> r0 \<Longrightarrow> heap (clear_existing x s) q = heap s q"
    by (simp add: ce unit_destroy_at(2) [OF h]) (simp add: log_event_def)
qed

lemma install_ok:
  assumes "\<not> (wantsAutoInit ro \<and> config_init config = Some Throws)"
  shows "fst (install x config meta ro s) = Inr ()"
    and "map_of (pluginsMap (snd (install x config meta ro s))) x = Some (next_ref s)"
    and "map_option plugin_cfg (heap (snd (install x config meta ro s)) (next_ref s)) = Some config"
    and "trace (snd (install x config meta ro s))
       = trace s
         @ (if wantsAutoInit ro
            then InitCalled (next_ref s)
                 # (if config_init config \<noteq> None then [InitHookRun (next_ref s)] else [])
            else [])
         @ [LogRegistered x]"
  using assms
  by (auto simp: install_def Let_def unit_init_def log_event_def new_plugin_def update_conv'
      split: option.splits hook.splits)

text \<open>
  Claim C8, as amended. A unit \<open>r0\<close> is registered under \<open>x\<close>; \<^verbatim>\<open>register\<close> derives the
  name \<open>x\<close>, the override is asked for, the engine version gate passes, and the new
  unit's \<^verbatim>\<open>init\<close> under \<^verbatim>\<open>autoInit\<close> does not fail. Then the call resolves; the old
  unit's \<^verbatim>\<open>destroy\<close> hook is invoked, whenever that unit has one and was not destroyed
  before, and that before the new unit is initialised and registered; and \<^verbatim>\<open>get\<close>
  returns the new unit, a fresh address that carries the config the factory returned,
  not the old one. The two hypotheses on the store hold wherever \<open>store_ok\<close> does
  (lemma \<open>store_ok_registered\<close>).
\<close>

theorem register_override_replaces:
  assumes "get s x = Some r0" and "heap s r0 = Some p0" and "heap s (next_ref s) = None"
    and "derive_pluginName c = Some x" and "x \<noteq> []"
    and "allowOverride (effective_options options registerOptions)"
    and "\<not> engine_check_fails E (meta_of c)"
    and "\<not> (wantsAutoInit (effective_options options registerOptions)
            \<and> config_init (creator_config c) = Some Throws)"
  shows "fst (register E s c options registerOptions) = Inr ()
     \<and> get (snd (register E s c options registerOptions)) x = Some (next_ref s)
     \<and> next_ref s \<noteq> r0
     \<and> map_option plugin_cfg (heap (snd (register E s c options registerOptions)) (next_ref s))
         = Some (creator_config c)
     \<and> trace (snd (register E s c options registerOptions))
         = trace s
           @ [FactoryInvoked, SetPreference x (meta_preferenceDeclaration (meta_of c)),
              LogOverride x r0, DestroyCalled r0]
           @ (if \<not> destroyed p0 \<and> config_destroy (plugin_cfg p0) \<noteq> None
              then [DestroyHookRun r0] else [])
           @ (if wantsAutoInit (effective_options options registerOptions)
              then InitCalled (next_ref s)
                   # (if config_init (creator_config c) \<noteq> None
                      then [InitHookRun (next_ref s)] else [])
              else [])
           @ [LogRegistered x]"
proof -
  let ?ro = "effective_options options registerOptions"
  let ?s2 = "log_event (SetPreference x (meta_preferenceDeclaration (meta_of c)))
               (log_event FactoryInvoked s)"
  let ?s3 = "clear_existing x ?s2"
  have ne: "next_ref s \<noteq> r0" using assms(2,3) by auto
  have m2: "map_of (pluginsMap ?s2) x = Some r0"
    using assms(1) by (simp add: get_def log_event_def)
  have h2: "heap ?s2 r0 = Some p0" using assms(2) by (simp add: log_event_def)
  have reg: "register E s c options registerOptions
      = install x (creator_config c) (meta_of c) ?ro ?s3"
    using assms(4-7) m2
    by (simp add: register_def Let_def invariant_def truthy_def string_of_def)
  note C = clear_existing_at [OF m2 h2]
  have n3: "next_ref ?s3 = next_ref s" by (simp add: C(4)) (simp add: log_event_def)
  have t3: "trace ?s3 = trace s
       @ [FactoryInvoked, SetPreference x (meta_preferenceDeclaration (meta_of c)),
          LogOverride x r0, DestroyCalled r0]
       @ (if \<not> destroyed p0 \<and> config_destroy (plugin_cfg p0) \<noteq> None
          then [DestroyHookRun r0] else [])"
    by (simp add: C(1)) (simp add: log_event_def)
  note I = install_ok [OF assms(8), of x "meta_of c" ?s3]
  show ?thesis
    using I ne by (simp add: reg n3 t3 get_def)
qed

theorem register_override_replaces_witness:
  "get st_x_up ''x'' = Some 0
   \<and> heap st_x_up (next_ref st_x_up) = None
   \<and> derive_pluginName (mk_creator ''x'' (mk_meta None []) Succeeds Succeeds) = Some ''x''
   \<and> allowOverride (effective_options None with_override)
   \<and> \<not> engine_check_fails exact_env
         (meta_of (mk_creator ''x'' (mk_meta None []) Succeeds Succeeds))
   \<and> fst (register exact_env st_x_up (mk_creator ''x'' (mk_meta None []) Succeeds Succeeds)
              None with_override)
       = Inr ()
   \<and> get (snd (register exact_env st_x_up
                  (mk_creator ''x'' (mk_meta None []) Succeeds Succeeds)
                  None with_override)) ''x''
       = Some 1
   \<and> trace (snd (register exact_env st_x_up
                    (mk_creator ''x'' (mk_meta None []) Succeeds Succeeds) None with_override))
       = trace st_x_up
         @ [FactoryInvoked, SetPreference ''x'' None, LogOverride ''x'' 0, DestroyCalled 0,
            DestroyHookRun 0, LogRegistered ''x'']"
  using register_override_replaces
    [where s = st_x_up and x = "''x''" and ?r0.0 = 0 and E = exact_env and options = None
       and registerOptions = with_override
       and c = "mk_creator ''x'' (mk_meta None []) Succeeds Succeeds"
       and ?p0.0 = "(new_plugin ''x''
                  \<lparr>config_name = None, config_init = Some Succeeds,
                     config_destroy = Some Succeeds\<rparr> (mk_meta None []))
                  \<lparr>initialized := True\<rparr>"]
  by (simp add: st_x_up_eq get_def derive_pluginName_def truthy_def mk_creator_def mk_meta_def
      allowOverride_def effective_options_def isLowCodeRegisterOptions_def with_override_def
      engine_check_fails_def engineVersionExp_def meta_of_def wantsAutoInit_def new_plugin_def)

text \<open>
  The claim as it was stated fails at three inputs, one for each condition of the
  amended claim. Where the new unit's \<^verbatim>\<open>init\<close> under \<^verbatim>\<open>autoInit\<close> throws, the old unit is
  destroyed and deleted from the map, the call rejects before the push and the set, and
  \<^verbatim>\<open>get\<close> returns nothing under \<open>x\<close>. Where the old unit was destroyed before, by
  \<^verbatim>\<open>destroy\<close> of the manager, which leaves it registered, the override calls its
  \<^verbatim>\<open>destroy\<close> again and the hook does not run a second time. Where the old unit has no
  \<^verbatim>\<open>destroy\<close> hook, none runs. In the last two the trace of the call shows the call of
  \<^verbatim>\<open>destroy\<close> and no run of a hook.
\<close>

theorem register_override_counterexample:
  "get st_x_up ''x'' = Some 0
   \<and> derive_pluginName (mk_creator ''x'' (mk_meta None []) Throws Succeeds) = Some ''x''
   \<and> allowOverride (effective_options None with_override_autoInit)
   \<and> \<not> engine_check_fails exact_env
         (meta_of (mk_creator ''x'' (mk_meta None []) Throws Succeeds))
   \<and> fst (register exact_env st_x_up (mk_creator ''x'' (mk_meta None []) Throws Succeeds)
              None with_override_autoInit)
       = Inl HookExecutionError
   \<and> get (snd (register exact_env st_x_up
                  (mk_creator ''x'' (mk_meta None []) Throws Succeeds)
                  None with_override_autoInit)) ''x''
       = None
   \<and> get st_x_down ''x'' = Some 0
   \<and> map_option destroyed (heap st_x_down 0) = Some True
   \<and> derive_pluginName (mk_creator ''x'' (mk_meta None []) Succeeds Succeeds) = Some ''x''
   \<and> allowOverride (effective_options None with_override)
   \<and> \<not> engine_check_fails exact_env
         (meta_of (mk_creator ''x'' (mk_meta None []) Succeeds Succeeds))
   \<and> fst (register exact_env st_x_down
              (mk_creator ''x'' (mk_meta None []) Succeeds Succeeds) None with_override)
       = Inr ()
   \<and> trace (snd (register exact_env st_x_down
                    (mk_creator ''x'' (mk_meta None []) Succeeds Succeeds) None with_override))
       = trace st_x_down
         @ [FactoryInvoked, SetPreference ''x'' None, LogOverride ''x'' 0, DestroyCalled 0,
            LogRegistered ''x'']
   \<and> get st_y_up ''x'' = Some 0
   \<and> map_option (config_destroy \<circ> plugin_cfg) (heap st_y_up 0) = Some None
   \<and> fst (register exact_env st_y_up
              (mk_creator ''x'' (mk_meta None []) Succeeds Succeeds) None with_override)
       = Inr ()
   \<and> trace (snd (register exact_env st_y_up
                    (mk_creator ''x'' (mk_meta None []) Succeeds Succeeds) None with_override))
       = trace st_y_up
         @ [FactoryInvoked, SetPreference ''x'' None, LogOverride ''x'' 0, DestroyCalled 0,
            LogRegistered ''x'']"
proof -
  have autoInit_fails:
    "fst (register exact_env st_x_up (mk_creator ''x'' (mk_meta None []) Throws Succeeds)
            None with_override_autoInit)
       = Inl HookExecutionError
     \<and> get (snd (register exact_env st_x_up
                    (mk_creator ''x'' (mk_meta None []) Throws Succeeds)
                    None with_override_autoInit)) ''x''
       = None"
    by (simp add: st_x_up_eq get_def) (simp add: register_defs input_defs Let_def)
  have destroyed_before:
    "fst (register exact_env st_x_down
            (mk_creator ''x'' (mk_meta None []) Succeeds Succeeds) None with_override)
       = Inr ()
     \<and> trace (snd (register exact_env st_x_down
                      (mk_creator ''x'' (mk_meta None []) Succeeds Succeeds) None with_override))
       = trace st_x_down
         @ [FactoryInvoked, SetPreference ''x'' None, LogOverride ''x'' 0, DestroyCalled 0,
            LogRegistered ''x'']"
    by (simp add: st_x_down_eq new_plugin_def) (simp add: register_defs input_defs Let_def)
  have no_hook:
    "fst (register exact_env st_y_up
            (mk_creator ''x'' (mk_meta None []) Succeeds Succeeds) None with_override)
       = Inr ()
     \<and> trace (snd (register exact_env st_y_up
                      (mk_creator ''x'' (mk_meta None []) Succeeds Succeeds) None with_override))
       = trace st_y_up
         @ [FactoryInvoked, SetPreference ''x'' None, LogOverride ''x'' 0, DestroyCalled 0,
            LogRegistered ''x'']"
    by (simp add: st_y_up_eq new_plugin_def) (simp add: register_defs input_defs Let_def)
  have inputs:
    "get st_x_up ''x'' = Some 0"
    "get st_x_down ''x'' = Some 0"
    "map_option destroyed (heap st_x_down 0) = Some True"
    "get st_y_up ''x'' = Some 0"
    "map_option (config_destroy \<circ> plugin_cfg) (heap st_y_up 0) = Some None"
    by (simp_all add: st_x_up_eq st_x_down_eq st_y_up_eq get_def new_plugin_def)
  have calls:
    "derive_pluginName (mk_creator ''x'' (mk_meta None []) Throws Succeeds) = Some ''x''"
    "derive_pluginName (mk_creator ''x'' (mk_meta None []) Succeeds Succeeds) = Some ''x''"
    "allowOverride (effective_options None with_override_autoInit)"
    "allowOverride (effective_options None with_override)"
    "\<not> engine_check_fails exact_env
         (meta_of (mk_creator ''x'' (mk_meta None []) Throws Succeeds))"
    "\<not> engine_check_fails exact_env
         (meta_of (mk_creator ''x'' (mk_meta None []) Succeeds Succeeds))"
    by (simp_all add: register_defs input_defs)
  from autoInit_fails destroyed_before no_hook inputs calls show ?thesis by simp
qed

section \<open>The sequencer reports a cycle\<close>

lemma emitted_deps_closed:
  "emitted_in_order units l \<Longrightarrow> n \<in> set l \<Longrightarrow> map_of units n = Some deps \<Longrightarrow> d \<in> set deps
     \<Longrightarrow> d \<in> set l"
  by (induction l) (auto simp: list_all_iff split: option.splits)

lemma emitted_no_cycle:
  "emitted_in_order units l \<Longrightarrow> a \<in> set l \<Longrightarrow> map_of units a = Some da \<Longrightarrow> b \<in> set da
     \<Longrightarrow> map_of units b = Some db \<Longrightarrow> a \<in> set db \<Longrightarrow> False"
proof (induction l)
  case Nil
  then show ?case by simp
next
  case (Cons n l)
  have ord: "emitted_in_order units l" and fresh: "n \<notin> set l" using Cons.prems(1) by auto
  show ?case
  proof (cases "a = n")
    case True
    then have "b \<in> set l" using Cons.prems by (auto simp: list_all_iff)
    then have "a \<in> set l" using emitted_deps_closed [OF ord _ Cons.prems(5,6)] by simp
    with True fresh show False by simp
  next
    case False
    then have al: "a \<in> set l" using Cons.prems(2) by simp
    then have "b \<in> set l" using emitted_deps_closed [OF ord _ Cons.prems(3,4)] by simp
    from Cons.IH [OF ord al Cons.prems(3,4,5,6)] show False .
  qed
qed

lemma visit_Cons:
  "visit units visiting (n # ns) acc
     = visit units visiting ns (visit_step units visiting n acc)"
  by (simp add: visit_step_def)

lemma visit_induct_step [consumes 0, case_names Nil Cons]:
  assumes "\<And>units visiting acc. P units visiting [] acc"
    and "\<And>units visiting n ns acc.
        (\<And>deps. n \<notin> set (sequence acc) \<Longrightarrow> n \<notin> set visiting \<Longrightarrow> map_of units n = Some deps
            \<Longrightarrow> P units (n # visiting) deps acc)
        \<Longrightarrow> P units visiting ns (visit_step units visiting n acc)
        \<Longrightarrow> P units visiting (n # ns) acc"
  shows "P units visiting ns acc"
proof (induction units visiting ns acc rule: visit.induct)
  case (1 units visiting acc)
  show ?case by (rule assms(1))
next
  case (2 units visiting n ns acc)
  show ?case
  proof (rule assms(2))
    fix deps
    assume "n \<notin> set (sequence acc)" "n \<notin> set visiting" "map_of units n = Some deps"
    then show "P units (n # visiting) deps acc" by (rule "2.IH"(1))
  next
    show "P units visiting ns (visit_step units visiting n acc)"
      using "2.IH"(2) by (simp only: visit_step_def)
  qed
qed

lemma visit_missing_grows:
  "missingTasks (visit units visiting ns acc) = [] \<Longrightarrow> missingTasks acc = []"
proof (induction units visiting ns acc rule: visit_induct_step)
  case (Nil units visiting acc)
  then show ?case by simp
next
  case (Cons units visiting n ns acc)
  from Cons.prems have "missingTasks (visit_step units visiting n acc) = []"
    by (simp only: visit_Cons Cons.IH(2))
  then show ?case
    using Cons.IH(1)
    by (auto simp: visit_step_def Let_def split: if_splits option.splits)
qed

lemma visit_sequence_grows:
  "x \<in> set (sequence acc) \<Longrightarrow> x \<in> set (sequence (visit units visiting ns acc))"
proof (induction units visiting ns acc rule: visit_induct_step)
  case (Nil units visiting acc)
  then show ?case by simp
next
  case (Cons units visiting n ns acc)
  have "x \<in> set (sequence (visit_step units visiting n acc))"
    using Cons.prems Cons.IH(1)
    by (auto simp: visit_step_def Let_def split: if_splits option.splits)
  then show ?case by (simp only: visit_Cons Cons.IH(2))
qed

lemma visit_keeps_marked_out:
  "x \<in> set visiting \<Longrightarrow> x \<notin> set (sequence acc)
     \<Longrightarrow> x \<notin> set (sequence (visit units visiting ns acc))"
proof (induction units visiting ns acc rule: visit_induct_step)
  case (Nil units visiting acc)
  then show ?case by simp
next
  case (Cons units visiting n ns acc)
  have "x \<notin> set (sequence (visit_step units visiting n acc))"
    using Cons.prems Cons.IH(1)
    by (auto simp: visit_step_def Let_def split: if_splits option.splits)
  with Cons.prems(1) show ?case by (simp only: visit_Cons Cons.IH(2) not_False_eq_True)
qed

lemma visit_emitted_in_order:
  "emitted_in_order units (rev (sequence acc))
     \<Longrightarrow> emitted_in_order units (rev (sequence (visit units visiting ns acc)))"
proof (induction units visiting ns acc rule: visit_induct_step)
  case (Nil units visiting acc)
  then show ?case by simp
next
  case (Cons units visiting n ns acc)
  have "emitted_in_order units (rev (sequence (visit_step units visiting n acc)))"
  proof (cases "n \<notin> set (sequence acc) \<and> n \<notin> set visiting \<and> map_of units n \<noteq> None")
    case False
    then show ?thesis using Cons.prems
      by (auto simp: visit_step_def)
  next
    case True
    then obtain deps where out: "n \<notin> set (sequence acc)" and unmarked: "n \<notin> set visiting"
      and look: "map_of units n = Some deps" by auto
    let ?acc' = "visit units (n # visiting) deps acc"
    have ord': "emitted_in_order units (rev (sequence ?acc'))"
      using Cons.IH(1) [OF out unmarked look Cons.prems] .
    have fresh: "n \<notin> set (sequence ?acc')"
      using visit_keeps_marked_out [of n "n # visiting" acc units deps] out by simp
    show ?thesis
      using ord' fresh out unmarked look by (simp add: visit_step_def Let_def)
  qed
  then show ?case by (simp only: visit_Cons Cons.IH(2))
qed

lemma visit_all_emitted:
  "missingTasks (visit units visiting ns acc) = [] \<Longrightarrow> x \<in> set ns
     \<Longrightarrow> x \<in> set (sequence (visit units visiting ns acc))"
proof (induction units visiting ns acc arbitrary: x rule: visit_induct_step)
  case (Nil units visiting acc)
  then show ?case by simp
next
  case (Cons units visiting n ns acc)
  let ?step = "visit_step units visiting n acc"
  have all: "missingTasks (visit units visiting ns ?step) = []"
    using Cons.prems(1) by (simp only: visit_Cons)
  then have clean: "missingTasks ?step = []" by (rule visit_missing_grows)
  show ?case
  proof (cases "x \<in> set ns")
    case True
    from Cons.IH(2) [OF all True] show ?thesis by (simp only: visit_Cons)
  next
    case False
    then have xn: "x = n" using Cons.prems(2) by simp
    have "n \<in> set (sequence ?step)"
    proof (cases "n \<in> set (sequence acc)")
      case True
      then show ?thesis by (simp add: visit_step_def)
    next
      case out: False
      have unmarked: "n \<notin> set visiting"
        using clean out by (auto simp: visit_step_def split: if_splits)
      obtain deps where look: "map_of units n = Some deps"
        using clean out unmarked by (cases "map_of units n") (auto simp: visit_step_def)
      let ?acc' = "visit units (n # visiting) deps acc"
      have step: "?step = (if list_all (\<lambda>d. d \<in> set (sequence ?acc')) deps
               then ?acc'\<lparr>sequence := sequence ?acc' @ [n]\<rparr> else ?acc')"
        using out unmarked look by (simp add: visit_step_def Let_def)
      have clean': "missingTasks ?acc' = []"
        using clean by (simp only: step split: if_splits) auto
      have "list_all (\<lambda>d. d \<in> set (sequence ?acc')) deps"
        using Cons.IH(1) [OF out unmarked look clean'] by (simp add: list_all_iff)
      then show ?thesis by (simp only: step) simp
    qed
    then show ?thesis
      using visit_sequence_grows [of n ?step units visiting ns] xn by (simp only: visit_Cons)
  qed
qed

lemma sequencify_reports_cycle:
  assumes "map_of units a = Some da" and "b \<in> set da"
    and "map_of units b = Some db" and "a \<in> set db" and "a \<in> set names"
  shows "missingTasks (sequencify units names) \<noteq> []"
proof
  let ?res = "visit units [] names \<lparr>sequence = [], missingTasks = []\<rparr>"
  assume "missingTasks (sequencify units names) = []"
  then have clean: "missingTasks ?res = []" by (simp add: sequencify_def)
  have ord: "emitted_in_order units (rev (sequence ?res))"
    by (rule visit_emitted_in_order) simp
  have "a \<in> set (sequence ?res)" using visit_all_emitted [OF clean assms(5)] .
  then have "a \<in> set (rev (sequence ?res))" by simp
  from emitted_no_cycle [OF ord this assms(1,2,3,4)] show False .
qed

section \<open>A dependency cycle at init\<close>

lemma pluginObj_keys:
  "fst ` set (fold (\<lambda>plugin obj. AList.update (k plugin) plugin obj) xs obj0)
     = k ` set xs \<union> fst ` set obj0"
  by (induction xs arbitrary: obj0) (auto simp: dom_update)

lemma pluginObj_name:
  assumes "map_of (pluginObj s) a = Some r"
  shows "a \<in> set (pluginNames s)"
proof -
  have "a \<in> fst ` set (pluginObj s)"
    using assms by (metis domI dom_map_of_conv_image_fst)
  then show ?thesis
    by (simp add: pluginObj_def pluginNames_def pluginObj_keys)
qed

lemma tasks_of_lookup:
  "map_of (tasks_of s) a = map_option (unit_dep s) (map_of (pluginObj s) a)"
  by (simp add: tasks_of_def map_of_map)

lemma pluginObj_skip:
  "a \<notin> k ` set xs
     \<Longrightarrow> map_of (fold (\<lambda>plugin obj. AList.update (k plugin) plugin obj) xs obj0) a
         = map_of obj0 a"
  by (induction xs arbitrary: obj0) (auto simp: update_conv')

lemma pluginObj_lookup:
  "distinct (map k xs) \<Longrightarrow> r \<in> set xs
     \<Longrightarrow> map_of (fold (\<lambda>plugin obj. AList.update (k plugin) plugin obj) xs obj0) (k r)
         = Some r"
proof (induction xs arbitrary: obj0)
  case Nil
  then show ?case by simp
next
  case (Cons y ys)
  show ?case
  proof (cases "r = y")
    case True
    have "k y \<notin> k ` set ys" using Cons.prems(1) by simp
    then show ?thesis using True by (simp add: pluginObj_skip update_conv')
  next
    case False
    then show ?thesis using Cons by simp
  qed
qed

text \<open>Where the names are unique, \<^verbatim>\<open>pluginObj\<close> holds every unit of \<^verbatim>\<open>plugins\<close> under its name.\<close>

lemma pluginObj_distinct:
  "distinct (pluginNames s) \<Longrightarrow> r \<in> set (plugins s)
     \<Longrightarrow> map_of (pluginObj s) (unit_name s r) = Some r"
  by (simp add: pluginObj_def pluginNames_def pluginObj_lookup)

lemma cycle_is_missing:
  assumes "map_of (pluginObj s) a = Some ra" and "map_of (pluginObj s) b = Some rb"
    and "b \<in> set (unit_dep s ra)" and "a \<in> set (unit_dep s rb)"
  shows "missingTasks (sequencify (tasks_of s) (pluginNames s)) \<noteq> []"
proof (rule sequencify_reports_cycle)
  show "map_of (tasks_of s) a = Some (unit_dep s ra)"
    using assms(1) by (simp add: tasks_of_lookup)
  show "map_of (tasks_of s) b = Some (unit_dep s rb)"
    using assms(2) by (simp add: tasks_of_lookup)
  show "b \<in> set (unit_dep s ra)" by (rule assms(3))
  show "a \<in> set (unit_dep s rb)" by (rule assms(4))
  show "a \<in> set (pluginNames s)" using assms(1) by (rule pluginObj_name)
qed

text \<open>
  Claim C6. The units that \<^verbatim>\<open>init\<close> collects from \<^verbatim>\<open>plugins\<close> into \<^verbatim>\<open>pluginObj\<close> hold a unit
  under the name \<open>a\<close> that declares a dependency on \<open>b\<close>, and a unit under \<open>b\<close> that
  declares one on \<open>a\<close>. Then \<^verbatim>\<open>init\<close> rejects with the missing-dependency error, the
  reported list not empty, and it calls the \<^verbatim>\<open>init\<close> of no unit: the trace and the units
  are as before the call, so neither hook of the two has run.
\<close>

theorem init_rejects_cycle:
  assumes "map_of (pluginObj s) a = Some ra" and "map_of (pluginObj s) b = Some rb"
    and "b \<in> set (unit_dep s ra)" and "a \<in> set (unit_dep s rb)"
  shows "missingTasks (sequencify (tasks_of s) (pluginNames s)) \<noteq> []
     \<and> fst (init s prefs)
         = Inl (MissingDependencyError (missingTasks (sequencify (tasks_of s) (pluginNames s))))
     \<and> trace (snd (init s prefs)) = trace s
     \<and> init_calls (trace (snd (init s prefs))) = init_calls (trace s)
     \<and> heap (snd (init s prefs)) = heap s"
  using cycle_is_missing [OF assms]
  by (simp add: init_def init_with_missing [of sequencify s])

theorem init_rejects_cycle_witness:
  "map_of (pluginObj st_pq) ''p'' = Some 0
   \<and> map_of (pluginObj st_pq) ''q'' = Some 1
   \<and> ''q'' \<in> set (unit_dep st_pq 0)
   \<and> ''p'' \<in> set (unit_dep st_pq 1)
   \<and> fst (init st_pq None) = Inl (MissingDependencyError [''p'', ''q''])
   \<and> trace (snd (init st_pq None)) = trace st_pq
   \<and> init_calls (trace (snd (init st_pq None))) = []
   \<and> heap (snd (init st_pq None)) = heap st_pq"
  using init_rejects_cycle [of st_pq "''p''" 0 "''q''" 1 None]
  by (simp add: st_pq_tasks st_pq_sequence)
     (simp add: st_pq_eq pluginObj_def unit_name_def unit_dep_def new_plugin_def mk_meta_def)

text \<open>
  The same for two units of \<^verbatim>\<open>plugins\<close>, where no two units of \<^verbatim>\<open>plugins\<close> share a name.
\<close>

lemma init_rejects_cycle_of_plugins:
  assumes "distinct (pluginNames s)" and "ra \<in> set (plugins s)" and "rb \<in> set (plugins s)"
    and "unit_name s rb \<in> set (unit_dep s ra)" and "unit_name s ra \<in> set (unit_dep s rb)"
  shows "\<exists>missing. missing \<noteq> []
     \<and> init s prefs = (Inl (MissingDependencyError missing), s\<lparr>pluginPreference := prefs\<rparr>)"
proof -
  have "missingTasks (sequencify (tasks_of s) (pluginNames s)) \<noteq> []"
    using cycle_is_missing [OF pluginObj_distinct [OF assms(1,2)]
        pluginObj_distinct [OF assms(1,3)] assms(4,5)] .
  then show ?thesis
    by (auto simp: init_def init_with_missing [of sequencify s])
qed

section \<open>A registration that throws\<close>

lemma clear_existing_absent:
  "map_of (pluginsMap s) name = None \<Longrightarrow> clear_existing name s = s"
  by (simp add: clear_existing_def)

lemma install_registry_on_failure:
  assumes "fst (install name config meta ro s) = Inl e"
  shows "plugins (snd (install name config meta ro s)) = plugins s
     \<and> pluginsMap (snd (install name config meta ro s)) = pluginsMap s"
proof -
  let ?s4 = "s\<lparr>heap := (heap s)(next_ref s \<mapsto> new_plugin name config meta),
               next_ref := Suc (next_ref s)\<rparr>"
  obtain r s5 where ui: "unit_init (next_ref s) ?s4 = (r, s5)"
    by (cases "unit_init (next_ref s) ?s4")
  from unit_init_frame [OF ui] assms ui show ?thesis
    by (auto simp: install_def Let_def split: if_splits sum.splits)
qed

text \<open>
  What holds of claim C1: a call of \<^verbatim>\<open>register\<close> that throws leaves \<^verbatim>\<open>plugins\<close> and
  \<^verbatim>\<open>pluginsMap\<close> as they were, unless the name is registered and the override is asked
  for.
\<close>

lemma register_failure_keeps_registry:
  assumes "fst (register E s c options registerOptions) = Inl e"
    and "\<not> (has s (string_of (derive_pluginName c))
            \<and> allowOverride (effective_options options registerOptions))"
  shows "plugins (snd (register E s c options registerOptions)) = plugins s
     \<and> pluginsMap (snd (register E s c options registerOptions)) = pluginsMap s"
proof (cases "truthy (derive_pluginName c)")
  case False
  then show ?thesis by (simp add: register_def Let_def invariant_def log_event_def)
next
  case named: True
  let ?name = "string_of (derive_pluginName c)"
  let ?ro = "effective_options options registerOptions"
  let ?s2 = "log_event (SetPreference ?name (meta_preferenceDeclaration (meta_of c)))
               (log_event FactoryInvoked s)"
  have m2: "map_of (pluginsMap ?s2) ?name = map_of (pluginsMap s) ?name"
    by (simp add: log_event_def)
  show ?thesis
  proof (cases "has s ?name")
    case True
    then have "\<not> allowOverride ?ro" using assms(2) by simp
    then show ?thesis using True named
      by (simp add: register_def Let_def invariant_def has_def log_event_def)
  next
    case False
    then have absent: "map_of (pluginsMap ?s2) ?name = None" by (simp add: m2 has_def)
    show ?thesis
    proof (cases "engine_check_fails E (meta_of c)")
      case True
      then show ?thesis using named absent
        by (simp add: register_def Let_def invariant_def clear_existing_absent)
           (simp add: log_event_def)
    next
      case False
      then have reg: "register E s c options registerOptions
          = install ?name (creator_config c) (meta_of c) ?ro ?s2"
        using named absent
        by (simp add: register_def Let_def invariant_def clear_existing_absent)
      from install_registry_on_failure [of ?name "creator_config c" "meta_of c" ?ro ?s2 e]
        assms(1) show ?thesis
        by (simp add: reg) (simp add: log_event_def)
    qed
  qed
qed

text \<open>
  Claim C1 does not hold of the code. With \<open>x\<close> registered and initialised,
  \<^verbatim>\<open>register\<close> is called for \<open>x\<close> with the override, by a factory whose meta data asks
  for an engine 2.0.0; the engine is 1.2.0. The \<^verbatim>\<open>destroy\<close> of the old unit is called, its
  hook runs, and the name is deleted from \<^verbatim>\<open>pluginsMap\<close>, all before the version gate
  throws: after the throw the map is empty, \<^verbatim>\<open>get\<close> finds nothing under \<open>x\<close>, and the
  old unit, destroyed, is still in \<^verbatim>\<open>plugins\<close>.
\<close>

theorem register_override_gate_failure:
  "get st_x_up ''x'' = Some 0
   \<and> map_option destroyed (heap st_x_up 0) = Some False
   \<and> fst (register exact_env st_x_up
             (mk_creator ''x'' (mk_meta (Some ''2.0.0'') []) Succeeds Succeeds)
             None with_override)
       = Inl (IncompatibleVersionError ''x'')
   \<and> pluginsMap (snd (register exact_env st_x_up
                        (mk_creator ''x'' (mk_meta (Some ''2.0.0'') []) Succeeds Succeeds)
                        None with_override))
       = []
   \<and> get (snd (register exact_env st_x_up
                 (mk_creator ''x'' (mk_meta (Some ''2.0.0'') []) Succeeds Succeeds)
                 None with_override)) ''x''
       = None
   \<and> plugins (snd (register exact_env st_x_up
                     (mk_creator ''x'' (mk_meta (Some ''2.0.0'') []) Succeeds Succeeds)
                     None with_override))
       = [0]
   \<and> trace (snd (register exact_env st_x_up
                   (mk_creator ''x'' (mk_meta (Some ''2.0.0'') []) Succeeds Succeeds)
                   None with_override))
       = trace st_x_up
         @ [FactoryInvoked, SetPreference ''x'' None, LogOverride ''x'' 0, DestroyCalled 0,
            DestroyHookRun 0]
   \<and> map_option destroyed
        (heap (snd (register exact_env st_x_up
                      (mk_creator ''x'' (mk_meta (Some ''2.0.0'') []) Succeeds Succeeds)
                      None with_override)) 0)
       = Some True"
  by (simp add: st_x_up_eq get_def new_plugin_def) (simp add: register_defs input_defs Let_def)

section \<open>The size of the map and the length of the array\<close>

text \<open>
  Claim C2 does not hold of the code. From the new manager, \<open>x\<close> is registered and then
  registered again with the override. The second call deletes the old unit from
  \<^verbatim>\<open>pluginsMap\<close> and leaves it in \<^verbatim>\<open>plugins\<close>, where \<^verbatim>\<open>delete\<close> would splice it out:
  afterwards the array holds two units and the map one.
\<close>

theorem register_override_breaks_size:
  "size_of st_x = length (plugins st_x)
   \<and> fst (register exact_env st_x (mk_creator ''x'' (mk_meta None []) Succeeds Succeeds)
             None with_override)
       = Inr ()
   \<and> size_of (snd (register exact_env st_x
                     (mk_creator ''x'' (mk_meta None []) Succeeds Succeeds)
                     None with_override))
       = 1
   \<and> plugins (snd (register exact_env st_x
                     (mk_creator ''x'' (mk_meta None []) Succeeds Succeeds)
                     None with_override))
       = [0, 1]
   \<and> get (snd (register exact_env st_x
                 (mk_creator ''x'' (mk_meta None []) Succeeds Succeeds)
                 None with_override)) ''x''
       = Some 1"
  by (simp add: st_x_eq get_def size_of_def) (simp add: register_defs input_defs Let_def)

section \<open>Teardown\<close>

text \<open>What holds of claim C5: when \<^verbatim>\<open>dispose\<close> resolves, the registry is empty.\<close>

lemma dispose_clears:
  assumes "fst (dispose s) = Inr ()"
  shows "size_of (snd (dispose s)) = 0 \<and> getAll (snd (dispose s)) = []"
  using assms
  by (auto simp: dispose_def size_of_def getAll_def split: prod.splits sum.splits)

text \<open>
  Claim C5 does not hold of the code. The units \<open>f\<close> and \<open>g\<close> are registered and
  initialised, and the \<^verbatim>\<open>destroy\<close> hook of \<open>f\<close> throws. The loop of \<^verbatim>\<open>destroy\<close> has no
  \<^verbatim>\<open>try\<close>, as the loop of \<^verbatim>\<open>init\<close> has: the rejection of \<open>f\<close> leaves the loop, \<^verbatim>\<open>destroy\<close>
  of \<open>g\<close> is never called, and \<^verbatim>\<open>dispose\<close> rejects before it clears the array and the
  map.
\<close>

theorem destroy_stops_at_failing_hook:
  "getAll st_fg_up = [0, 1]
   \<and> fst (destroy st_fg_up) = Inl HookExecutionError
   \<and> destroy_calls (trace (snd (destroy st_fg_up))) = [0]
   \<and> fst (dispose st_fg_up) = Inl HookExecutionError
   \<and> destroy_calls (trace (snd (dispose st_fg_up))) = [0]
   \<and> size_of (snd (dispose st_fg_up)) = 2
   \<and> getAll (snd (dispose st_fg_up)) = [0, 1]"
  by (simp add: st_fg_up_eq dispose_def destroy_def getAll_def size_of_def unit_destroy_def
      log_event_def new_plugin_def Let_def)

end
